theory Spec2Isabelle
  imports Complex_Main "HOL-Library.AList"
begin

section \<open>Clickstream preprocessing: the embedding\<close>

text \<open>
  The development follows \<^verbatim>\<open>clickstream_preprocess.py\<close>. Python's unbounded integers are
  \<open>int\<close>, its strings are \<open>string\<close> (one \<open>char\<close> for each character, which is exact for
  ASCII text), exceptions are values of \<open>py_error\<close> on the left of a sum. The quotients
  \<^verbatim>\<open>k / (k + 1)\<close> and \<^verbatim>\<open>c / total_clients\<close> are taken in exact rational arithmetic (the
  rounding of Python's floats is not modelled). Opening the file and reading it with
  \<^verbatim>\<open>csv.reader\<close> are outside the model: the input is the list of the rows the reader
  yields, each a list of fields. Progress printing and the pickling of the three results
  are left out: \<open>preprocess\<close> returns the three containers it would write.
\<close>

subsection \<open>Errors\<close>

datatype py_error = ValueError | ZeroDivisionError

subsection \<open>The emission counter\<close>

text \<open>
  \<^verbatim>\<open>collections.Counter\<close>: a dictionary in insertion order. Reading a missing key gives
  0 and stores nothing; an augmented assignment stores the key.
\<close>

type_synonym counter = "(string \<times> int) list"

definition counter_get :: "counter \<Rightarrow> string \<Rightarrow> int" where
  "counter_get c w = (case map_of c w of None \<Rightarrow> 0 | Some v \<Rightarrow> v)"

definition counter_set :: "counter \<Rightarrow> string \<Rightarrow> int \<Rightarrow> counter" where
  "counter_set c w v = AList.update w v c"

definition counter_total :: "counter \<Rightarrow> int" where
  "counter_total c = sum_list (map snd c)"

subsection \<open>The pseudo-random generator\<close>

text \<open>
  An instance of \<^verbatim>\<open>random.Random\<close> is its seed and the number of draws made so far.
  The library's generator is a parameter \<open>gen\<close> of every function that draws:
  \<open>gen seed n\<close> is the float that \<^verbatim>\<open>random.Random(seed)\<close> returns at its draw number
  \<open>n\<close> (counted from 0).
\<close>

record py_random =
  seed_of :: int
  pos :: nat

definition Random :: "int \<Rightarrow> py_random" where
  "Random seed = \<lparr>seed_of = seed, pos = 0\<rparr>"

definition random_py :: "(int \<Rightarrow> nat \<Rightarrow> rat) \<Rightarrow> py_random \<Rightarrow> rat \<times> py_random" where
  "random_py gen g = (gen (seed_of g) (pos g), g\<lparr>pos := Suc (pos g)\<rparr>)"

subsection \<open>The two encodings\<close>

text \<open>
  \<^verbatim>\<open>(s[:L]).ljust(L, '$')\<close>: a negative \<open>L\<close> makes the slice drop the last \<open>-L\<close>
  characters, and \<^verbatim>\<open>ljust\<close> never shortens.
\<close>

definition slice_to :: "string \<Rightarrow> int \<Rightarrow> string" where
  "slice_to s L = (if 0 \<le> L then take (nat L) s else take (nat (int (length s) + L)) s)"

definition ljust :: "string \<Rightarrow> int \<Rightarrow> char \<Rightarrow> string" where
  "ljust s L c = s @ replicate (nat (L - int (length s))) c"

definition truncate_or_pad :: "string \<Rightarrow> int \<Rightarrow> string" where
  "truncate_or_pad s L = ljust (slice_to s L) L (CHR ''$'')"

definition add_end_symbol :: "string \<Rightarrow> string" where
  "add_end_symbol s = s @ [CHR ''$'']"

subsection \<open>The sampler\<close>

text \<open>
  \<^verbatim>\<open>
  while container[elem] >= k:
      if rng.random() < k / (k + 1):
          return False
      container[elem] -= 1
  container[elem] += 1
  return True
  \<close>
  The result is the returned flag with the container and the generator as the call
  leaves them. \<^verbatim>\<open>k / (k + 1)\<close> raises for \<open>k = -1\<close>.
\<close>

function reservoir_extend ::
  "(int \<Rightarrow> nat \<Rightarrow> rat) \<Rightarrow> counter \<Rightarrow> string \<Rightarrow> int \<Rightarrow> py_random \<Rightarrow> py_error + (bool \<times> counter \<times> py_random)" where
  "reservoir_extend gen container elem k rng =
     (if counter_get container elem \<ge> k then
        (if k + 1 = 0 then Inl ZeroDivisionError
         else if fst (random_py gen rng) < of_int k / of_int (k + 1)
           then Inr (False, container, snd (random_py gen rng))
         else reservoir_extend gen
                (counter_set container elem (counter_get container elem - 1))
                elem k (snd (random_py gen rng)))
      else Inr (True, counter_set container elem (counter_get container elem + 1), rng))"
  by pat_completeness auto

termination reservoir_extend
  by (relation "measure (\<lambda>(gen, container, elem, k, rng). nat (counter_get container elem - k + 1))")
     (auto simp: counter_get_def counter_set_def update_conv')

declare reservoir_extend.simps [simp del]

subsection \<open>The pass\<close>

record pstate =
  freq :: counter
  clients_triehh :: "string list"
  clients_sfp :: "string list"
  rng :: py_random

definition init_state :: "py_random \<Rightarrow> pstate" where
  "init_state g = \<lparr>freq = [], clients_triehh = [], clients_sfp = [], rng = g\<rparr>"

text \<open>
  \<^verbatim>\<open>
  for _ in range(cnt):
      if reservoir_extend(freq, curr, cap, rng):
          clients_triehh.append(add_end_symbol(curr))
          clients_sfp.append(truncate_or_pad(curr, max_len))
  \<close>
  with \<open>n\<close> the number of iterations left. The source's \<^verbatim>\<open>curr\<close> is \<open>cur\<close> here, and
  \<^verbatim>\<open>rng.random()\<close> is \<open>random_py\<close>.
\<close>

fun sample_loop :: "(int \<Rightarrow> nat \<Rightarrow> rat) \<Rightarrow> nat \<Rightarrow> string \<Rightarrow> int \<Rightarrow> int \<Rightarrow> pstate \<Rightarrow> py_error + pstate" where
  "sample_loop gen 0 cur cap max_len st = Inr st"
| "sample_loop gen (Suc n) cur cap max_len st =
     (case reservoir_extend gen (freq st) cur cap (rng st) of
        Inl e \<Rightarrow> Inl e
      | Inr (accepted, container, g) \<Rightarrow>
          sample_loop gen n cur cap max_len
            (if accepted
             then st\<lparr>freq := container, rng := g,
                     clients_triehh := clients_triehh st @ [add_end_symbol cur],
                     clients_sfp := clients_sfp st @ [truncate_or_pad cur max_len]\<rparr>
             else st\<lparr>freq := container, rng := g\<rparr>))"

text \<open>
  \<^verbatim>\<open>int(cnt)\<close> on ASCII text: blanks stripped at both ends, an optional sign, then
  decimal digits, where single underscores may stand between digits. Anything else
  raises \<^verbatim>\<open>ValueError\<close> (\<open>None\<close> here). The bound that recent versions of Python put
  on the number of digits is not modelled.
\<close>

definition is_space :: "char \<Rightarrow> bool" where
  "is_space c = (c \<in> set [CHR '' '', CHR 0x09, CHR 0x0A, CHR 0x0B, CHR 0x0C, CHR 0x0D])"

definition is_digit :: "char \<Rightarrow> bool" where
  "is_digit c = ((48::nat) \<le> of_char c \<and> (of_char c :: nat) \<le> 57)"

definition digit_val :: "char \<Rightarrow> nat" where
  "digit_val c = of_char c - 48"

fun parse_digits :: "nat \<Rightarrow> bool \<Rightarrow> string \<Rightarrow> nat option" where
  "parse_digits acc after_digit [] = (if after_digit then Some acc else None)"
| "parse_digits acc after_digit (c # cs) =
     (if is_digit c then parse_digits (10 * acc + digit_val c) True cs
      else if c = CHR ''_'' \<and> after_digit then parse_digits acc False cs
      else None)"

definition strip :: "string \<Rightarrow> string" where
  "strip s = rev (dropWhile is_space (rev (dropWhile is_space s)))"

definition py_int :: "string \<Rightarrow> int option" where
  "py_int s =
     (case strip s of
        [] \<Rightarrow> None
      | c # cs \<Rightarrow>
          if c = CHR ''-'' then map_option (\<lambda>n. - int n) (parse_digits 0 False cs)
          else if c = CHR ''+'' then map_option int (parse_digits 0 False cs)
          else map_option int (parse_digits 0 False (c # cs)))"

text \<open>Python's truth value of \<^verbatim>\<open>keep_type\<close>: \<^verbatim>\<open>None\<close> and the empty string are false.\<close>

definition truthy :: "string option \<Rightarrow> bool" where
  "truthy kt = (case kt of None \<Rightarrow> False | Some s \<Rightarrow> s \<noteq> [])"

text \<open>
  The body of the loop over the rows of the reader, for one row:
  \<^verbatim>\<open>
  if len(row) != 4: continue
  prev, curr, typ, cnt = row
  if keep_type and typ != keep_type: continue
  cnt = int(cnt)
  if cap and cnt > cap: cnt = cap
  if cap:
      for _ in range(cnt): ...
  else:
      freq[curr] += cnt
      clients_triehh.extend([add_end_symbol(curr)] * cnt)
      clients_sfp.extend([truncate_or_pad(curr, max_len)] * cnt)
  \<close>
\<close>

fun process_row :: "(int \<Rightarrow> nat \<Rightarrow> rat) \<Rightarrow> int \<Rightarrow> int \<Rightarrow> string option \<Rightarrow> string list \<Rightarrow> pstate \<Rightarrow> py_error + pstate" where
  "process_row gen max_len cap keep_type [prev, cur, typ, cnt] st =
     (if truthy keep_type \<and> Some typ \<noteq> keep_type then Inr st
      else case py_int cnt of
        None \<Rightarrow> Inl ValueError
      | Some c \<Rightarrow>
          (let cnt = (if cap \<noteq> 0 \<and> c > cap then cap else c) in
           if cap \<noteq> 0 then sample_loop gen (nat cnt) cur cap max_len st
           else Inr (st\<lparr>freq := counter_set (freq st) cur (counter_get (freq st) cur + cnt),
                        clients_triehh := clients_triehh st @ replicate (nat cnt) (add_end_symbol cur),
                        clients_sfp := clients_sfp st @ replicate (nat cnt) (truncate_or_pad cur max_len)\<rparr>)))"
| "process_row gen max_len cap keep_type row st = Inr st"

fun pass_rows :: "(int \<Rightarrow> nat \<Rightarrow> rat) \<Rightarrow> int \<Rightarrow> int \<Rightarrow> string option \<Rightarrow> string list list \<Rightarrow> pstate \<Rightarrow> py_error + pstate" where
  "pass_rows gen max_len cap keep_type [] st = Inr st"
| "pass_rows gen max_len cap keep_type (row # rows) st =
     (case process_row gen max_len cap keep_type row st of
        Inl e \<Rightarrow> Inl e
      | Inr st' \<Rightarrow> pass_rows gen max_len cap keep_type rows st')"

text \<open>
  The three results: \<^verbatim>\<open>clients_triehh\<close>, \<^verbatim>\<open>clients_sfp\<close> and \<^verbatim>\<open>rel_freq\<close>, a
  dictionary in the order of \<^verbatim>\<open>freq.items()\<close>.
\<close>

record outputs =
  clients_A :: "string list"
  clients_B :: "string list"
  frequencies :: "(string \<times> rat) list"

text \<open>
  \<^verbatim>\<open>{w: c / total_clients for w, c in freq.items()}\<close>: the division is evaluated once
  for each item, so it raises only if there is an item.
\<close>

definition rel_freq :: "counter \<Rightarrow> nat \<Rightarrow> py_error + (string \<times> rat) list" where
  "rel_freq fr total_clients =
     (if fr \<noteq> [] \<and> total_clients = 0 then Inl ZeroDivisionError
      else Inr (map (\<lambda>(w, c). (w, of_int c / of_nat total_clients)) fr))"

definition preprocess ::
  "(int \<Rightarrow> nat \<Rightarrow> rat) \<Rightarrow> string list list \<Rightarrow> int \<Rightarrow> int \<Rightarrow> string option \<Rightarrow> int
     \<Rightarrow> py_error + outputs" where
  "preprocess gen rows max_len cap keep_type seed =
     (case pass_rows gen max_len cap keep_type rows (init_state (Random seed)) of
        Inl e \<Rightarrow> Inl e
      | Inr st \<Rightarrow>
          (case rel_freq (freq st) (length (clients_triehh st)) of
             Inl e \<Rightarrow> Inl e
           | Inr rf \<Rightarrow> Inr \<lparr>clients_A = clients_triehh st, clients_B = clients_sfp st,
                            frequencies = rf\<rparr>))"

section \<open>Notions used in the statements\<close>

text \<open>
  A row survives when the loop body gets past its two \<^verbatim>\<open>continue\<close> statements: it has
  four fields, and its third field is \<^verbatim>\<open>keep_type\<close> when a filter is set. \<open>row_count\<close>
  is the count of a row as \<^verbatim>\<open>int\<close> reads it, \<open>cumulative_count\<close> the sum of the counts of
  the surviving rows whose current-state field is a given token, and a row has a bad
  count when it survives and \<^verbatim>\<open>int\<close> rejects its count field.
\<close>

definition survives :: "string option \<Rightarrow> string list \<Rightarrow> bool" where
  "survives keep_type row =
     (length row = 4 \<and> (truthy keep_type \<longrightarrow> Some (row ! 2) = keep_type))"

definition row_count :: "string list \<Rightarrow> int" where
  "row_count row = (case py_int (row ! 3) of None \<Rightarrow> 0 | Some c \<Rightarrow> c)"

definition cumulative_count :: "string option \<Rightarrow> string list list \<Rightarrow> string \<Rightarrow> int" where
  "cumulative_count keep_type rows t =
     sum_list (map row_count (filter (\<lambda>row. survives keep_type row \<and> row ! 1 = t) rows))"

definition bad_count :: "string option \<Rightarrow> string list \<Rightarrow> bool" where
  "bad_count keep_type row = (survives keep_type row \<and> py_int (row ! 3) = None)"

text \<open>
  The sampler in the words of the specification, on the counter of one token: while the
  counter is at least \<open>k\<close>, either reject and stop, or decrement the counter and check
  again; when the counter is below \<open>k\<close>, increment it and accept. \<open>rejects i\<close> tells
  whether the coin of draw number \<open>i\<close> says reject. The result is the decision, the
  counter and the number of the next draw.
\<close>

function spec_sampler :: "int \<Rightarrow> (nat \<Rightarrow> bool) \<Rightarrow> nat \<Rightarrow> int \<Rightarrow> bool \<times> int \<times> nat" where
  "spec_sampler k rejects i c =
     (if c \<ge> k then
        (if rejects i then (False, c, Suc i)
         else spec_sampler k rejects (Suc i) (c - 1))
      else (True, c + 1, i))"
  by pat_completeness auto
termination
  by (relation "measure (\<lambda>(k, rejects, i, c). nat (c - k + 1))") auto

declare spec_sampler.simps [simp del]

text \<open>
  \<open>accepted_at_cap gen seed k i j\<close> is the number of draws, from draw number \<open>i\<close> up to
  but not including draw number \<open>j\<close>, that do not reject. During a pass with a positive
  cap a draw is made only for an occurrence whose token's counter is at the cap, and the
  occurrence is accepted when the draw does not reject: it is then the number of
  occurrences accepted at the cap. A state is balanced, for the generator \<open>g\<close> the pass
  started with, when its generator is \<open>g\<close> advanced, no counter exceeds the cap, and the
  number of clients is the sum of the counter plus the number of occurrences accepted at
  the cap.
\<close>

definition accepted_at_cap :: "(int \<Rightarrow> nat \<Rightarrow> rat) \<Rightarrow> int \<Rightarrow> int \<Rightarrow> nat \<Rightarrow> nat \<Rightarrow> nat" where
  "accepted_at_cap gen seed k i j =
     length (filter (\<lambda>n. \<not> gen seed n < of_int k / of_int (k + 1)) [i..<j])"

definition balanced :: "(int \<Rightarrow> nat \<Rightarrow> rat) \<Rightarrow> py_random \<Rightarrow> int \<Rightarrow> pstate \<Rightarrow> bool" where
  "balanced gen g k st =
     (seed_of (rng st) = seed_of g \<and> pos g \<le> pos (rng st)
      \<and> (\<forall>t. counter_get (freq st) t \<le> k)
      \<and> int (length (clients_triehh st))
          = counter_total (freq st)
            + int (accepted_at_cap gen (seed_of g) k (pos g) (pos (rng st))))"

text \<open>
  A generator for the examples: every draw, at every seed, is the first float that
  \<^verbatim>\<open>random.Random(0).random()\<close> returns, \<open>0.8444218515250481\<close>, as an exact fraction.
\<close>

definition draws_seed0 :: "int \<Rightarrow> nat \<Rightarrow> rat" where
  "draws_seed0 seed n = 3802937935871711 / 4503599627370496"

text \<open>
  A second generator for the examples: it agrees with \<open>draws_seed0\<close> at seed 0 and
  differs from it at every other seed.
\<close>

definition draws_other :: "int \<Rightarrow> nat \<Rightarrow> rat" where
  "draws_other seed n = (if seed = 0 then 3802937935871711 / 4503599627370496 else 0)"

section \<open>Properties of the counter and the sampler\<close>

lemma counter_get_set: "counter_get (counter_set c w v) w' = (if w' = w then v else counter_get c w')"
  by (simp add: counter_get_def counter_set_def update_conv')

lemma counter_total_set:
  "counter_total (counter_set c w v) = counter_total c - counter_get c w + v"
  by (induction c) (auto simp: counter_total_def counter_set_def counter_get_def)

lemma reservoir_extend_accept:
  "\<not> k \<le> counter_get c e \<Longrightarrow>
     reservoir_extend gen c e k g = Inr (True, counter_set c e (counter_get c e + 1), g)"
  by (subst reservoir_extend.simps) simp

lemma reservoir_extend_raise:
  "k \<le> counter_get c e \<Longrightarrow> k + 1 = 0 \<Longrightarrow> reservoir_extend gen c e k g = Inl ZeroDivisionError"
  by (subst reservoir_extend.simps) simp

lemma reservoir_extend_reject:
  "k \<le> counter_get c e \<Longrightarrow> k + 1 \<noteq> 0 \<Longrightarrow> fst (random_py gen g) < of_int k / of_int (k + 1) \<Longrightarrow>
     reservoir_extend gen c e k g = Inr (False, c, snd (random_py gen g))"
  by (subst reservoir_extend.simps) simp

lemma reservoir_extend_retry:
  "k \<le> counter_get c e \<Longrightarrow> k + 1 \<noteq> 0 \<Longrightarrow> \<not> fst (random_py gen g) < of_int k / of_int (k + 1) \<Longrightarrow>
     reservoir_extend gen c e k g =
       reservoir_extend gen (counter_set c e (counter_get c e - 1)) e k (snd (random_py gen g))"
  by (subst reservoir_extend.simps) simp

lemma reservoir_extend_cases:
  obtains (accept) "\<not> k \<le> counter_get c e"
  | (raise) "k \<le> counter_get c e" "k + 1 = 0"
  | (reject) "k \<le> counter_get c e" "k + 1 \<noteq> 0" "fst (random_py gen g) < of_int k / of_int (k + 1)"
  | (retry) "k \<le> counter_get c e" "k + 1 \<noteq> 0" "\<not> fst (random_py gen g) < of_int k / of_int (k + 1)"
  by blast

lemma reservoir_extend_no_error:
  "k + 1 \<noteq> 0 \<Longrightarrow> \<exists>r. reservoir_extend gen c e k g = Inr r"
proof (induction gen c e k g rule: reservoir_extend.induct)
  case (1 gen container elem k rng)
  show ?case
  proof (cases rule: reservoir_extend_cases [where gen=gen and k=k and c=container and e=elem and g=rng])
    case retry
    with "1.IH" show ?thesis by (simp add: reservoir_extend_retry)
  qed (use "1.prems" in \<open>auto simp add: reservoir_extend_accept reservoir_extend_reject\<close>)
qed

lemma reservoir_extend_total:
  "reservoir_extend gen c e k g = Inr (acc, c', g') \<Longrightarrow>
     counter_total c' \<le> counter_total c + (if acc then 1 else 0)"
proof (induction gen c e k g rule: reservoir_extend.induct)
  case (1 gen container elem k rng)
  show ?case
  proof (cases rule: reservoir_extend_cases [where gen=gen and k=k and c=container and e=elem and g=rng])
    case accept
    with "1.prems" show ?thesis by (auto simp: reservoir_extend_accept counter_total_set)
  next
    case raise
    with "1.prems" show ?thesis by (simp add: reservoir_extend_raise)
  next
    case reject
    with "1.prems" show ?thesis by (auto simp: reservoir_extend_reject)
  next
    case retry
    with "1.prems" have "counter_total c' \<le>
        counter_total (counter_set container elem (counter_get container elem - 1))
          + (if acc then 1 else 0)"
      by (intro "1.IH") (simp_all add: reservoir_extend_retry)
    then show ?thesis by (simp add: counter_total_set split: if_splits)
  qed
qed

lemma reservoir_extend_others:
  "reservoir_extend gen c e k g = Inr (acc, c', g') \<Longrightarrow> t \<noteq> e \<Longrightarrow>
     counter_get c' t = counter_get c t"
proof (induction gen c e k g rule: reservoir_extend.induct)
  case (1 gen container elem k rng)
  show ?case
  proof (cases rule: reservoir_extend_cases [where gen=gen and k=k and c=container and e=elem and g=rng])
    case accept
    with "1.prems" show ?thesis by (auto simp: reservoir_extend_accept counter_get_set)
  next
    case raise
    with "1.prems" show ?thesis by (simp add: reservoir_extend_raise)
  next
    case reject
    with "1.prems" show ?thesis by (auto simp: reservoir_extend_reject)
  next
    case retry
    with "1.prems" have "counter_get c' t =
        counter_get (counter_set container elem (counter_get container elem - 1)) t"
      by (intro "1.IH") (simp_all add: reservoir_extend_retry)
    with "1.prems" show ?thesis by (simp add: counter_get_set)
  qed
qed

lemma reservoir_extend_le:
  "reservoir_extend gen c e k g = Inr (acc, c', g') \<Longrightarrow> counter_get c e \<le> k \<Longrightarrow>
     counter_get c' e \<le> k"
proof (induction gen c e k g rule: reservoir_extend.induct)
  case (1 gen container elem k rng)
  show ?case
  proof (cases rule: reservoir_extend_cases [where gen=gen and k=k and c=container and e=elem and g=rng])
    case accept
    with "1.prems" show ?thesis by (auto simp: reservoir_extend_accept counter_get_set)
  next
    case raise
    with "1.prems" show ?thesis by (simp add: reservoir_extend_raise)
  next
    case reject
    with "1.prems" show ?thesis by (auto simp: reservoir_extend_reject)
  next
    case retry
    with "1.prems" show ?thesis
      by (intro "1.IH") (simp_all add: reservoir_extend_retry counter_get_set)
  qed
qed

lemma counter_set_twice: "counter_set (counter_set c w v) w v' = counter_set c w v'"
  by (simp add: counter_set_def)

lemma reservoir_extend_within_cap:
  assumes "0 < k" and "counter_get container elem \<le> k"
  shows "reservoir_extend gen container elem k g =
      (if counter_get container elem < k
         then Inr (True, counter_set container elem (counter_get container elem + 1), g)
       else if gen (seed_of g) (pos g) < of_int k / of_int (k + 1)
         then Inr (False, container, g\<lparr>pos := Suc (pos g)\<rparr>)
       else Inr (True, counter_set container elem k, g\<lparr>pos := Suc (pos g)\<rparr>))"
proof (cases rule: reservoir_extend_cases [where gen=gen and k=k and c=container and e=elem and g=g])
  case accept
  then show ?thesis by (simp add: reservoir_extend_accept)
next
  case raise
  with assms show ?thesis by simp
next
  case reject
  with assms show ?thesis by (simp add: reservoir_extend_reject random_py_def)
next
  case retry
  with assms have eq: "counter_get container elem = k" by simp
  have "reservoir_extend gen container elem k g =
          reservoir_extend gen (counter_set container elem (counter_get container elem - 1))
            elem k (snd (random_py gen g))"
    using retry by (rule reservoir_extend_retry)
  also have "\<dots> = Inr (True, counter_set container elem k, g\<lparr>pos := Suc (pos g)\<rparr>)"
    by (subst reservoir_extend_accept)
       (simp_all add: counter_get_set counter_set_twice eq random_py_def)
  finally show ?thesis using retry eq by (simp add: random_py_def)
qed

section \<open>Rows and the occurrence loop\<close>

lemma length_four: "length row = 4 \<Longrightarrow> \<exists>a b c d. row = [a, b, c, d]"
  by (auto simp: eval_nat_numeral length_Suc_conv)

lemma process_row_skip:
  "\<not> survives keep_type row \<Longrightarrow> process_row gen max_len cap keep_type row st = Inr st"
  by (cases "(gen, max_len, cap, keep_type, row, st)" rule: process_row.cases)
     (auto simp: survives_def)

lemma process_row_raise:
  "survives keep_type row \<Longrightarrow> py_int (row ! 3) = None \<Longrightarrow>
     process_row gen max_len cap keep_type row st = Inl ValueError"
  by (cases "(gen, max_len, cap, keep_type, row, st)" rule: process_row.cases)
     (auto simp: survives_def)

lemma process_row_capped:
  "survives keep_type row \<Longrightarrow> py_int (row ! 3) = Some c \<Longrightarrow> cap \<noteq> 0 \<Longrightarrow>
     process_row gen max_len cap keep_type row st =
       sample_loop gen (nat (min c cap)) (row ! 1) cap max_len st"
  by (cases "(gen, max_len, cap, keep_type, row, st)" rule: process_row.cases)
     (auto simp: survives_def min_def)

lemma process_row_uncapped:
  "survives keep_type row \<Longrightarrow> py_int (row ! 3) = Some c \<Longrightarrow>
     process_row gen max_len 0 keep_type row st =
       Inr (st\<lparr>freq := counter_set (freq st) (row ! 1) (counter_get (freq st) (row ! 1) + c),
               clients_triehh := clients_triehh st @ replicate (nat c) (add_end_symbol (row ! 1)),
               clients_sfp := clients_sfp st @ replicate (nat c) (truncate_or_pad (row ! 1) max_len)\<rparr>)"
  by (cases "(gen, max_len, 0::int, keep_type, row, st)" rule: process_row.cases)
     (auto simp: survives_def)

lemma process_row_cases:
  obtains (skip) "\<not> survives keep_type row"
  | (raise) "survives keep_type row" "py_int (row ! 3) = None"
  | (count) c where "survives keep_type row" "py_int (row ! 3) = Some c"
  by (cases "py_int (row ! 3)") auto

lemma sample_loop_step:
  assumes "sample_loop gen (Suc n) cur cap max_len st = Inr st'"
  obtains acc c g where "reservoir_extend gen (freq st) cur cap (rng st) = Inr (acc, c, g)"
    and "sample_loop gen n cur cap max_len
           (if acc then st\<lparr>freq := c, rng := g,
                     clients_triehh := clients_triehh st @ [add_end_symbol cur],
                     clients_sfp := clients_sfp st @ [truncate_or_pad cur max_len]\<rparr>
            else st\<lparr>freq := c, rng := g\<rparr>) = Inr st'"
  using assms by (auto split: sum.splits)

lemma sample_loop_aligned:
  "sample_loop gen n cur cap max_len st = Inr st' \<Longrightarrow>
   length (clients_triehh st) = length (clients_sfp st) \<Longrightarrow>
   length (clients_triehh st') = length (clients_sfp st')"
proof (induction n arbitrary: st)
  case 0
  then show ?case by simp
next
  case (Suc n)
  from Suc.prems(1) show ?case
  proof (cases rule: sample_loop_step)
    case (1 acc c g)
    from 1(2) show ?thesis
      by (rule Suc.IH) (use Suc.prems(2) in \<open>simp split: if_splits\<close>)
  qed
qed

lemma sample_loop_total:
  "sample_loop gen n cur cap max_len st = Inr st' \<Longrightarrow>
   counter_total (freq st) \<le> int (length (clients_triehh st)) \<Longrightarrow>
   counter_total (freq st') \<le> int (length (clients_triehh st'))"
proof (induction n arbitrary: st)
  case 0
  then show ?case by simp
next
  case (Suc n)
  from Suc.prems(1) show ?case
  proof (cases rule: sample_loop_step)
    case (1 acc c g)
    from 1(2) show ?thesis
      by (rule Suc.IH) (use Suc.prems(2) reservoir_extend_total [OF 1(1)] in \<open>simp split: if_splits\<close>)
  qed
qed

lemma sample_loop_capped:
  "sample_loop gen n cur cap max_len st = Inr st' \<Longrightarrow>
   \<forall>t. counter_get (freq st) t \<le> cap \<Longrightarrow>
   counter_get (freq st') t \<le> cap"
proof (induction n arbitrary: st)
  case 0
  then show ?case by simp
next
  case (Suc n)
  from Suc.prems(1) show ?case
  proof (cases rule: sample_loop_step)
    case (1 acc c g)
    have "counter_get c u \<le> cap" for u
      using reservoir_extend_le [OF 1(1)] reservoir_extend_others [OF 1(1), of u] Suc.prems(2)
      by (cases "u = cur") auto
    then have "\<forall>t. counter_get (freq (if acc
          then st\<lparr>freq := c, rng := g,
                  clients_triehh := clients_triehh st @ [add_end_symbol cur],
                  clients_sfp := clients_sfp st @ [truncate_or_pad cur max_len]\<rparr>
          else st\<lparr>freq := c, rng := g\<rparr>)) t \<le> cap"
      by simp
    with 1(2) show ?thesis
      by (rule Suc.IH)
  qed
qed

lemma sample_loop_no_error:
  "cap + 1 \<noteq> 0 \<Longrightarrow> \<exists>st'. sample_loop gen n cur cap max_len st = Inr st'"
proof (induction n arbitrary: st)
  case 0
  then show ?case by simp
next
  case (Suc n)
  from reservoir_extend_no_error [OF Suc.prems, where gen = gen and c = "freq st" and e = cur and g = "rng st"]
  obtain acc c g where "reservoir_extend gen (freq st) cur cap (rng st) = Inr (acc, c, g)"
    by (metis prod_cases3)
  with Suc.IH [OF Suc.prems] show ?case by simp
qed

lemma init_state_simps:
  "freq (init_state g) = []" "clients_triehh (init_state g) = []"
  "clients_sfp (init_state g) = []" "rng (init_state g) = g"
  by (simp_all add: init_state_def)

lemma process_row_bad_count:
  "bad_count keep_type row \<Longrightarrow> process_row gen max_len cap keep_type row st = Inl ValueError"
  by (simp add: bad_count_def process_row_raise)

lemma process_row_negative_cap:
  assumes "cap < 0"
  shows "process_row gen max_len cap keep_type row st =
           (if bad_count keep_type row then Inl ValueError else Inr st)"
proof (cases rule: process_row_cases [where keep_type = keep_type and row = row])
  case skip
  then show ?thesis by (simp add: process_row_skip bad_count_def)
next
  case raise
  then show ?thesis by (simp add: process_row_raise bad_count_def)
next
  case (count c)
  with assms show ?thesis by (simp add: process_row_capped bad_count_def)
qed

lemma pass_rows_negative_cap:
  "cap < 0 \<Longrightarrow> pass_rows gen max_len cap keep_type rows st =
     (if \<exists>row\<in>set rows. bad_count keep_type row then Inl ValueError else Inr st)"
  by (induction rows) (simp_all add: process_row_negative_cap)

section \<open>The lengths of the sequences and the counter\<close>

lemma process_row_aligned:
  assumes "process_row gen max_len cap keep_type row st = Inr st'"
    and "length (clients_triehh st) = length (clients_sfp st)"
  shows "length (clients_triehh st') = length (clients_sfp st')"
proof (cases rule: process_row_cases [where keep_type = keep_type and row = row])
  case skip
  with assms show ?thesis by (simp add: process_row_skip)
next
  case raise
  with assms show ?thesis by (simp add: process_row_raise)
next
  case (count c)
  show ?thesis
  proof (cases "cap = 0")
    case True
    with count assms show ?thesis by (auto simp: process_row_uncapped)
  next
    case False
    with count assms show ?thesis by (auto simp: process_row_capped dest: sample_loop_aligned)
  qed
qed

lemma process_row_total:
  assumes "process_row gen max_len cap keep_type row st = Inr st'"
    and "counter_total (freq st) \<le> int (length (clients_triehh st))"
  shows "counter_total (freq st') \<le> int (length (clients_triehh st'))"
proof (cases rule: process_row_cases [where keep_type = keep_type and row = row])
  case skip
  with assms show ?thesis by (simp add: process_row_skip)
next
  case raise
  with assms show ?thesis by (simp add: process_row_raise)
next
  case (count c)
  show ?thesis
  proof (cases "cap = 0")
    case True
    with count assms show ?thesis by (auto simp: process_row_uncapped counter_total_set)
  next
    case False
    with count assms show ?thesis by (auto simp: process_row_capped dest: sample_loop_total)
  qed
qed

lemma process_row_exact:
  assumes "process_row gen max_len 0 keep_type row st = Inr st'"
    and "counter_total (freq st) = int (length (clients_triehh st))"
    and "survives keep_type row \<longrightarrow> 0 \<le> row_count row"
  shows "counter_total (freq st') = int (length (clients_triehh st'))"
proof (cases rule: process_row_cases [where keep_type = keep_type and row = row])
  case skip
  with assms show ?thesis by (simp add: process_row_skip)
next
  case raise
  with assms show ?thesis by (simp add: process_row_raise)
next
  case (count c)
  with assms show ?thesis
    by (auto simp: process_row_uncapped counter_total_set row_count_def)
qed

lemma pass_rows_aligned:
  "pass_rows gen max_len cap keep_type rows st = Inr st' \<Longrightarrow>
   length (clients_triehh st) = length (clients_sfp st) \<Longrightarrow>
   length (clients_triehh st') = length (clients_sfp st')"
  by (induction rows arbitrary: st) (auto split: sum.splits dest: process_row_aligned)

lemma pass_rows_total:
  "pass_rows gen max_len cap keep_type rows st = Inr st' \<Longrightarrow>
   counter_total (freq st) \<le> int (length (clients_triehh st)) \<Longrightarrow>
   counter_total (freq st') \<le> int (length (clients_triehh st'))"
  by (induction rows arbitrary: st) (auto split: sum.splits dest: process_row_total)

lemma pass_rows_exact:
  "pass_rows gen max_len 0 keep_type rows st = Inr st' \<Longrightarrow>
   counter_total (freq st) = int (length (clients_triehh st)) \<Longrightarrow>
   \<forall>row\<in>set rows. survives keep_type row \<longrightarrow> 0 \<le> row_count row \<Longrightarrow>
   counter_total (freq st') = int (length (clients_triehh st'))"
proof (induction rows arbitrary: st)
  case Nil
  then show ?case by simp
next
  case (Cons row rows)
  from Cons.prems(1) obtain st1 where
    1: "process_row gen max_len 0 keep_type row st = Inr st1"
    and 2: "pass_rows gen max_len 0 keep_type rows st1 = Inr st'"
    by (auto split: sum.splits)
  from 1 Cons.prems(2,3) have "counter_total (freq st1) = int (length (clients_triehh st1))"
    by (intro process_row_exact [OF 1]) simp_all
  with 2 Cons.prems(3) show ?case
    by (intro Cons.IH) simp_all
qed

lemma accepted_at_cap_same: "accepted_at_cap gen seed k i i = 0"
  by (simp add: accepted_at_cap_def)

lemma accepted_at_cap_Suc:
  "i \<le> j \<Longrightarrow> accepted_at_cap gen seed k i (Suc j) =
     accepted_at_cap gen seed k i j
       + (if gen seed j < of_int k / of_int (k + 1) then 0 else 1)"
  by (simp add: accepted_at_cap_def)

lemma reservoir_extend_balanced:
  assumes "0 < k" and "balanced gen g k st"
    and "reservoir_extend gen (freq st) cur k (rng st) = Inr (acc, c, g2)"
  shows "balanced gen g k
           (if acc then st\<lparr>freq := c, rng := g2,
                     clients_triehh := clients_triehh st @ [add_end_symbol cur],
                     clients_sfp := clients_sfp st @ [truncate_or_pad cur max_len]\<rparr>
            else st\<lparr>freq := c, rng := g2\<rparr>)"
proof -
  from assms(2) have le: "counter_get (freq st) cur \<le> k"
    and sd: "seed_of (rng st) = seed_of g" and ps: "pos g \<le> pos (rng st)"
    and all: "\<And>t. counter_get (freq st) t \<le> k"
    and bal: "int (length (clients_triehh st))
          = counter_total (freq st)
            + int (accepted_at_cap gen (seed_of g) k (pos g) (pos (rng st)))"
    by (simp_all add: balanced_def)
  note r = reservoir_extend_within_cap [OF assms(1) le, of gen "rng st"]
  show ?thesis
  proof (cases "counter_get (freq st) cur < k")
    case True
    with r assms(3) have "acc" "c = counter_set (freq st) cur (counter_get (freq st) cur + 1)"
      "g2 = rng st" by simp_all
    with True sd ps all bal show ?thesis
      by (simp add: balanced_def counter_get_set counter_total_set)
  next
    case False
    with le have eq: "counter_get (freq st) cur = k" by simp
    show ?thesis
    proof (cases "gen (seed_of g) (pos (rng st)) < of_int k / of_int (k + 1)")
      case True
      with r assms(3) False sd have "\<not> acc" "c = freq st" "g2 = (rng st)\<lparr>pos := Suc (pos (rng st))\<rparr>"
        by simp_all
      with True sd ps all bal show ?thesis
        by (simp add: balanced_def accepted_at_cap_Suc)
    next
      case nr: False
      with r assms(3) False sd have "acc" "c = counter_set (freq st) cur k"
        "g2 = (rng st)\<lparr>pos := Suc (pos (rng st))\<rparr>"
        by simp_all
      with nr sd ps all bal eq show ?thesis
        by (simp add: balanced_def accepted_at_cap_Suc counter_get_set counter_total_set)
    qed
  qed
qed

lemma sample_loop_balanced:
  "sample_loop gen n cur k max_len st = Inr st' \<Longrightarrow> 0 < k \<Longrightarrow> balanced gen g k st \<Longrightarrow>
   balanced gen g k st'"
proof (induction n arbitrary: st)
  case 0
  then show ?case by simp
next
  case (Suc n)
  from Suc.prems(1) show ?case
  proof (cases rule: sample_loop_step)
    case (1 acc c g2)
    from 1(2) Suc.prems(2) reservoir_extend_balanced [OF Suc.prems(2,3) 1(1)]
    show ?thesis by (rule Suc.IH)
  qed
qed

lemma process_row_balanced:
  assumes "process_row gen max_len k keep_type row st = Inr st'"
    and "0 < k" and "balanced gen g k st"
  shows "balanced gen g k st'"
proof (cases rule: process_row_cases [where keep_type = keep_type and row = row])
  case skip
  with assms show ?thesis by (simp add: process_row_skip)
next
  case raise
  with assms show ?thesis by (simp add: process_row_raise)
next
  case (count c)
  with assms have "sample_loop gen (nat (min c k)) (row ! 1) k max_len st = Inr st'"
    by (simp add: process_row_capped)
  then show ?thesis using assms(2,3) by (rule sample_loop_balanced)
qed

lemma pass_rows_balanced:
  "pass_rows gen max_len k keep_type rows st = Inr st' \<Longrightarrow> 0 < k \<Longrightarrow> balanced gen g k st \<Longrightarrow>
   balanced gen g k st'"
proof (induction rows arbitrary: st)
  case Nil
  then show ?case by simp
next
  case (Cons row rows)
  from Cons.prems(1) obtain st1 where
    1: "process_row gen max_len k keep_type row st = Inr st1"
    and 2: "pass_rows gen max_len k keep_type rows st1 = Inr st'"
    by (auto split: sum.splits)
  from 2 Cons.prems(2) process_row_balanced [OF 1 Cons.prems(2,3)]
  show ?case by (rule Cons.IH)
qed

lemma init_state_balanced: "0 < k \<Longrightarrow> balanced gen g k (init_state g)"
  by (simp add: balanced_def init_state_simps counter_get_def counter_total_def
      accepted_at_cap_same)

lemma pass_rows_accepted_at_cap:
  assumes "pass_rows gen max_len cap keep_type rows (init_state g) = Inr st" and "cap \<noteq> 0"
  shows "int (length (clients_triehh st))
          = counter_total (freq st)
            + int (accepted_at_cap gen (seed_of g) cap (pos g) (pos (rng st)))"
proof (cases "0 < cap")
  case True
  from assms(1) True init_state_balanced [OF True] have "balanced gen g cap st"
    by (rule pass_rows_balanced)
  then show ?thesis by (simp add: balanced_def)
next
  case False
  with assms(2) have "cap < 0" by simp
  with assms(1) have "st = init_state g"
    by (simp add: pass_rows_negative_cap split: if_splits)
  then show ?thesis
    by (simp add: init_state_simps counter_total_def accepted_at_cap_same)
qed

lemma sample_loop_accepted_at_cap:
  assumes "pass_rows gen max_len cap keep_type rows (init_state g) = Inr st"
    and "sample_loop gen j cur cap max_len st = Inr st'" and "0 < cap"
  shows "int (length (clients_triehh st'))
          = counter_total (freq st')
            + int (accepted_at_cap gen (seed_of g) cap (pos g) (pos (rng st')))"
proof -
  from assms(1,3) init_state_balanced [OF assms(3)] have "balanced gen g cap st"
    by (rule pass_rows_balanced)
  with assms(2,3) have "balanced gen g cap st'" by (rule sample_loop_balanced)
  then show ?thesis by (simp add: balanced_def)
qed

text \<open>
  Claim C1, as amended. After any prefix of the rows, and after any number of further
  occurrence decisions, the two client sequences have the same length, and the sum of
  the emission counter is that length less the number of occurrences accepted at the
  cap: an occurrence accepted at the cap is appended to both sequences while the counter
  is decremented and incremented back. So the sum and the lengths are equal until an
  occurrence is accepted at the cap, and the sum is never above the length. With capping
  off (\<open>cap = 0\<close>) they are equal when no surviving row has a negative count.
\<close>

theorem emitted_lengths_and_counter_total:
  assumes "pass_rows gen max_len cap keep_type (take n rows) (init_state g) = Inr st"
  shows "length (clients_triehh st) = length (clients_sfp st)
       \<and> counter_total (freq st) \<le> int (length (clients_triehh st))
       \<and> (cap \<noteq> 0 \<longrightarrow>
            counter_total (freq st)
              = int (length (clients_triehh st))
                - int (accepted_at_cap gen (seed_of g) cap (pos g) (pos (rng st))))
       \<and> (cap = 0 \<and> (\<forall>row\<in>set (take n rows). survives keep_type row \<longrightarrow> 0 \<le> row_count row)
            \<longrightarrow> counter_total (freq st) = int (length (clients_triehh st)))
       \<and> (\<forall>j cur st'. sample_loop gen j cur cap max_len st = Inr st'
            \<longrightarrow> length (clients_triehh st') = length (clients_sfp st')
              \<and> counter_total (freq st') \<le> int (length (clients_triehh st'))
              \<and> (0 < cap \<longrightarrow>
                   counter_total (freq st')
                     = int (length (clients_triehh st'))
                       - int (accepted_at_cap gen (seed_of g) cap (pos g) (pos (rng st')))))"
proof (intro conjI impI allI)
  show a: "length (clients_triehh st) = length (clients_sfp st)"
    using assms by (rule pass_rows_aligned) (simp add: init_state_simps)
  show t: "counter_total (freq st) \<le> int (length (clients_triehh st))"
    using assms by (rule pass_rows_total) (simp add: init_state_simps counter_total_def)
  show "counter_total (freq st)
              = int (length (clients_triehh st))
                - int (accepted_at_cap gen (seed_of g) cap (pos g) (pos (rng st)))"
    if "cap \<noteq> 0"
    using pass_rows_accepted_at_cap [OF assms that] by simp
  show "counter_total (freq st) = int (length (clients_triehh st))"
    if h: "cap = 0 \<and> (\<forall>row\<in>set (take n rows). survives keep_type row \<longrightarrow> 0 \<le> row_count row)"
  proof (rule pass_rows_exact)
    from assms h show "pass_rows gen max_len 0 keep_type (take n rows) (init_state g) = Inr st"
      by simp
    show "counter_total (freq (init_state g)) = int (length (clients_triehh (init_state g)))"
      by (simp add: init_state_simps counter_total_def)
    from h show "\<forall>row\<in>set (take n rows). survives keep_type row \<longrightarrow> 0 \<le> row_count row"
      by simp
  qed
  fix j cur st'
  assume s: "sample_loop gen j cur cap max_len st = Inr st'"
  from s a show "length (clients_triehh st') = length (clients_sfp st')"
    by (rule sample_loop_aligned)
  from s t show "counter_total (freq st') \<le> int (length (clients_triehh st'))"
    by (rule sample_loop_total)
  show "counter_total (freq st')
                     = int (length (clients_triehh st'))
                       - int (accepted_at_cap gen (seed_of g) cap (pos g) (pos (rng st')))"
    if "0 < cap"
    using sample_loop_accepted_at_cap [OF assms s that] by simp
qed

text \<open>
  The claim as stated fails with \<open>cap = 1\<close> on two rows for the same token when the draw
  is not below \<open>1/2\<close> (the first draw of \<^verbatim>\<open>random.Random(0)\<close> is such a draw): two
  clients are emitted and the counter holds 1.
\<close>

theorem counter_total_counterexample:
  "pass_rows draws_seed0 16 1 (Some ''link'')
     [[''X'', ''A'', ''link'', ''1''], [''Y'', ''A'', ''link'', ''1'']]
     (init_state (Random 0))
   = Inr \<lparr>freq = [(''A'', 1)], clients_triehh = [''A$'', ''A$''],
          clients_sfp = [''A$$$$$$$$$$$$$$$'', ''A$$$$$$$$$$$$$$$''],
          rng = \<lparr>seed_of = 0, pos = 1\<rparr>\<rparr>
   \<and> counter_total [(''A'', 1)] \<noteq> int (length [''A$'', ''A$''])"
  by code_simp

theorem emitted_lengths_and_counter_total_witness:
  "pass_rows draws_seed0 16 0 (Some ''link'')
     (take 2 [[''X'', ''A'', ''link'', ''3''], [''X'', ''B'', ''link'', ''1'']])
     (init_state (Random 0))
   = Inr \<lparr>freq = [(''A'', 3), (''B'', 1)],
          clients_triehh = [''A$'', ''A$'', ''A$'', ''B$''],
          clients_sfp = [''A$$$$$$$$$$$$$$$'', ''A$$$$$$$$$$$$$$$'', ''A$$$$$$$$$$$$$$$'',
                         ''B$$$$$$$$$$$$$$$''],
          rng = \<lparr>seed_of = 0, pos = 0\<rparr>\<rparr>
   \<and> list_all (\<lambda>row. survives (Some ''link'') row \<longrightarrow> 0 \<le> row_count row)
         (take 2 [[''X'', ''A'', ''link'', ''3''], [''X'', ''B'', ''link'', ''1'']])
   \<and> counter_total [(''A'', 3), (''B'', 1)]
       = int (length [''A$'', ''A$'', ''A$'', ''B$''])
   \<and> pass_rows draws_seed0 16 1 (Some ''link'')
     (take 2 [[''X'', ''A'', ''link'', ''1''], [''Y'', ''A'', ''link'', ''1'']])
     (init_state (Random 0))
   = Inr \<lparr>freq = [(''A'', 1)], clients_triehh = [''A$'', ''A$''],
          clients_sfp = [''A$$$$$$$$$$$$$$$'', ''A$$$$$$$$$$$$$$$''],
          rng = \<lparr>seed_of = 0, pos = 1\<rparr>\<rparr>
   \<and> (1::int) \<noteq> 0
   \<and> accepted_at_cap draws_seed0 0 1 0 1 = 1
   \<and> counter_total [(''A'', 1)]
       = int (length [''A$'', ''A$'']) - int (accepted_at_cap draws_seed0 0 1 0 1)
   \<and> pass_rows draws_seed0 16 5000 (Some ''link'')
     (take 2 [[''X'', ''A'', ''link'', ''3''], [''X'', ''B'', ''link'', ''1'']])
     (init_state (Random 0))
   = Inr \<lparr>freq = [(''A'', 3), (''B'', 1)],
          clients_triehh = [''A$'', ''A$'', ''A$'', ''B$''],
          clients_sfp = [''A$$$$$$$$$$$$$$$'', ''A$$$$$$$$$$$$$$$'', ''A$$$$$$$$$$$$$$$'',
                         ''B$$$$$$$$$$$$$$$''],
          rng = \<lparr>seed_of = 0, pos = 0\<rparr>\<rparr>
   \<and> (5000::int) \<noteq> 0
   \<and> accepted_at_cap draws_seed0 0 5000 0 0 = 0
   \<and> counter_total [(''A'', 3), (''B'', 1)]
       = int (length [''A$'', ''A$'', ''A$'', ''B$''])
         - int (accepted_at_cap draws_seed0 0 5000 0 0)"
proof -
  let ?sAB = "\<lparr>freq = [(''A'', 3), (''B'', 1)],
          clients_triehh = [''A$'', ''A$'', ''A$'', ''B$''],
          clients_sfp = [''A$$$$$$$$$$$$$$$'', ''A$$$$$$$$$$$$$$$'', ''A$$$$$$$$$$$$$$$'',
                         ''B$$$$$$$$$$$$$$$''],
          rng = \<lparr>seed_of = 0, pos = 0\<rparr>\<rparr>"
  let ?sAA = "\<lparr>freq = [(''A'', 1)], clients_triehh = [''A$'', ''A$''],
          clients_sfp = [''A$$$$$$$$$$$$$$$'', ''A$$$$$$$$$$$$$$$''],
          rng = \<lparr>seed_of = 0, pos = 1\<rparr>\<rparr>"
  have h: "pass_rows draws_seed0 16 0 (Some ''link'')
     (take 2 [[''X'', ''A'', ''link'', ''3''], [''X'', ''B'', ''link'', ''1'']])
     (init_state (Random 0)) = Inr ?sAB"
    by code_simp
  have l: "list_all (\<lambda>row. survives (Some ''link'') row \<longrightarrow> 0 \<le> row_count row)
         (take 2 [[''X'', ''A'', ''link'', ''3''], [''X'', ''B'', ''link'', ''1'']])"
    by code_simp
  then have n: "\<forall>row\<in>set (take 2 [[''X'', ''A'', ''link'', ''3''], [''X'', ''B'', ''link'', ''1'']]).
         survives (Some ''link'') row \<longrightarrow> 0 \<le> row_count row"
    by (simp only: list_all_iff)
  from emitted_lengths_and_counter_total [OF h] n
  have "counter_total (freq ?sAB) = int (length (clients_triehh ?sAB))"
    by blast
  then have c0: "counter_total [(''A'', 3), (''B'', 1)]
       = int (length [''A$'', ''A$'', ''A$'', ''B$''])"
    by (simp only: pstate.simps)
  have h1: "pass_rows draws_seed0 16 1 (Some ''link'')
     (take 2 [[''X'', ''A'', ''link'', ''1''], [''Y'', ''A'', ''link'', ''1'']])
     (init_state (Random 0)) = Inr ?sAA"
    by code_simp
  have p1: "(1::int) \<noteq> 0" by simp
  have a1: "accepted_at_cap draws_seed0 0 1 0 1 = 1" by code_simp
  from emitted_lengths_and_counter_total [OF h1] p1
  have "counter_total (freq ?sAA)
       = int (length (clients_triehh ?sAA))
         - int (accepted_at_cap draws_seed0 (seed_of (Random 0)) 1 (pos (Random 0)) (pos (rng ?sAA)))"
    by blast
  then have c1: "counter_total [(''A'', 1)]
       = int (length [''A$'', ''A$'']) - int (accepted_at_cap draws_seed0 0 1 0 1)"
    by (simp only: pstate.simps py_random.simps Random_def)
  have h2: "pass_rows draws_seed0 16 5000 (Some ''link'')
     (take 2 [[''X'', ''A'', ''link'', ''3''], [''X'', ''B'', ''link'', ''1'']])
     (init_state (Random 0)) = Inr ?sAB"
    by code_simp
  have p2: "(5000::int) \<noteq> 0" by simp
  have a2: "accepted_at_cap draws_seed0 0 5000 0 0 = 0" by code_simp
  from emitted_lengths_and_counter_total [OF h2] p2
  have "counter_total (freq ?sAB)
       = int (length (clients_triehh ?sAB))
         - int (accepted_at_cap draws_seed0 (seed_of (Random 0)) 5000 (pos (Random 0)) (pos (rng ?sAB)))"
    by blast
  then have c2: "counter_total [(''A'', 3), (''B'', 1)]
       = int (length [''A$'', ''A$'', ''A$'', ''B$''])
         - int (accepted_at_cap draws_seed0 0 5000 0 0)"
    by (simp only: pstate.simps py_random.simps Random_def)
  from h l c0 h1 p1 a1 c1 h2 p2 a2 c2 show ?thesis by (intro conjI)
qed

section \<open>The cap on the counter\<close>

lemma process_row_capped_inv:
  assumes "process_row gen max_len cap keep_type row st = Inr st'"
    and "cap \<noteq> 0" and "\<forall>t. counter_get (freq st) t \<le> cap"
  shows "counter_get (freq st') t \<le> cap"
proof (cases rule: process_row_cases [where keep_type = keep_type and row = row])
  case skip
  with assms show ?thesis by (simp add: process_row_skip)
next
  case raise
  with assms show ?thesis by (simp add: process_row_raise)
next
  case (count c)
  with assms have "sample_loop gen (nat (min c cap)) (row ! 1) cap max_len st = Inr st'"
    by (simp add: process_row_capped)
  then show ?thesis using assms(3) by (rule sample_loop_capped)
qed

lemma pass_rows_capped_inv:
  "pass_rows gen max_len cap keep_type rows st = Inr st' \<Longrightarrow> cap \<noteq> 0 \<Longrightarrow>
   \<forall>t. counter_get (freq st) t \<le> cap \<Longrightarrow> counter_get (freq st') t \<le> cap"
proof (induction rows arbitrary: st)
  case Nil
  then show ?case by simp
next
  case (Cons row rows)
  from Cons.prems(1) obtain st1 where
    1: "process_row gen max_len cap keep_type row st = Inr st1"
    and 2: "pass_rows gen max_len cap keep_type rows st1 = Inr st'"
    by (auto split: sum.splits)
  have "\<forall>u. counter_get (freq st1) u \<le> cap"
    using process_row_capped_inv [OF 1 Cons.prems(2,3)] by simp
  with 2 Cons.prems(2) show ?case by (rule Cons.IH)
qed

lemma process_row_uncapped_count:
  assumes "process_row gen max_len 0 keep_type row st = Inr st'"
  shows "counter_get (freq st') t =
           counter_get (freq st) t + cumulative_count keep_type [row] t"
proof (cases rule: process_row_cases [where keep_type = keep_type and row = row])
  case skip
  with assms show ?thesis by (simp add: process_row_skip cumulative_count_def)
next
  case raise
  with assms show ?thesis by (simp add: process_row_raise)
next
  case (count c)
  with assms show ?thesis
    by (auto simp: process_row_uncapped cumulative_count_def row_count_def counter_get_set)
qed

lemma cumulative_count_Cons:
  "cumulative_count keep_type (row # rows) t =
     cumulative_count keep_type [row] t + cumulative_count keep_type rows t"
  by (simp add: cumulative_count_def)

lemma pass_rows_uncapped_count:
  "pass_rows gen max_len 0 keep_type rows st = Inr st' \<Longrightarrow>
   counter_get (freq st') t = counter_get (freq st) t + cumulative_count keep_type rows t"
proof (induction rows arbitrary: st)
  case Nil
  then show ?case by (simp add: cumulative_count_def)
next
  case (Cons row rows)
  from Cons.prems(1) obtain st1 where
    1: "process_row gen max_len 0 keep_type row st = Inr st1"
    and 2: "pass_rows gen max_len 0 keep_type rows st1 = Inr st'"
    by (auto split: sum.splits)
  from Cons.IH [OF 2] process_row_uncapped_count [OF 1, of t]
  show ?case by (simp only: cumulative_count_Cons [of keep_type row rows t])
qed

text \<open>
  Claim C3. With capping on and a positive cap, no counter exceeds the cap after any prefix
  of the rows, nor after any number of further occurrence decisions. With capping off
  (\<open>cap = 0\<close>) the counter of every token is the sum of the counts of the surviving rows
  whose current-state field is that token.
\<close>

theorem counter_cap_and_exact_count:
  assumes "pass_rows gen max_len cap keep_type (take n rows) (init_state g) = Inr st"
  shows "(0 < cap \<longrightarrow>
            (\<forall>t. counter_get (freq st) t \<le> cap)
          \<and> (\<forall>j cur st'. sample_loop gen j cur cap max_len st = Inr st'
                \<longrightarrow> (\<forall>t. counter_get (freq st') t \<le> cap)))
       \<and> (cap = 0 \<longrightarrow>
            (\<forall>t. counter_get (freq st) t = cumulative_count keep_type (take n rows) t))"
proof (intro conjI impI allI)
  assume pos: "0 < cap"
  have init: "\<forall>t. counter_get (freq (init_state g)) t \<le> cap"
    using pos by (simp add: init_state_simps counter_get_def)
  show b: "counter_get (freq st) t \<le> cap" for t
    using assms _ init by (rule pass_rows_capped_inv) (use pos in simp)
  fix j cur st' t
  assume "sample_loop gen j cur cap max_len st = Inr st'"
  then show "counter_get (freq st') t \<le> cap"
    by (rule sample_loop_capped) (simp add: b)
next
  fix t
  assume "cap = 0"
  with assms have "pass_rows gen max_len 0 keep_type (take n rows) (init_state g) = Inr st"
    by simp
  from pass_rows_uncapped_count [OF this, of t]
  show "counter_get (freq st) t = cumulative_count keep_type (take n rows) t"
    by (simp add: init_state_simps counter_get_def)
qed

theorem counter_cap_and_exact_count_witness:
  "pass_rows draws_seed0 16 2 (Some ''link'')
     (take 2 [[''X'', ''A'', ''link'', ''7''], [''Y'', ''A'', ''link'', ''1'']])
     (init_state (Random 0))
   = Inr \<lparr>freq = [(''A'', 2)],
          clients_triehh = [''A$'', ''A$'', ''A$''],
          clients_sfp = [''A$$$$$$$$$$$$$$$'', ''A$$$$$$$$$$$$$$$'', ''A$$$$$$$$$$$$$$$''],
          rng = \<lparr>seed_of = 0, pos = 1\<rparr>\<rparr>
   \<and> (0::int) < 2
   \<and> counter_get [(''A'', 2)] ''A'' \<le> 2
   \<and> pass_rows draws_seed0 16 0 (Some ''link'')
     (take 2 [[''X'', ''A'', ''link'', ''3''], [''X'', ''B'', ''link'', ''1'']])
     (init_state (Random 0))
   = Inr \<lparr>freq = [(''A'', 3), (''B'', 1)],
          clients_triehh = [''A$'', ''A$'', ''A$'', ''B$''],
          clients_sfp = [''A$$$$$$$$$$$$$$$'', ''A$$$$$$$$$$$$$$$'', ''A$$$$$$$$$$$$$$$'',
                         ''B$$$$$$$$$$$$$$$''],
          rng = \<lparr>seed_of = 0, pos = 0\<rparr>\<rparr>
   \<and> counter_get [(''A'', 3), (''B'', 1)] ''A''
       = cumulative_count (Some ''link'')
           (take 2 [[''X'', ''A'', ''link'', ''3''], [''X'', ''B'', ''link'', ''1'']]) ''A''"
proof -
  have h: "pass_rows draws_seed0 16 2 (Some ''link'')
     (take 2 [[''X'', ''A'', ''link'', ''7''], [''Y'', ''A'', ''link'', ''1'']])
     (init_state (Random 0))
   = Inr \<lparr>freq = [(''A'', 2)],
          clients_triehh = [''A$'', ''A$'', ''A$''],
          clients_sfp = [''A$$$$$$$$$$$$$$$'', ''A$$$$$$$$$$$$$$$'', ''A$$$$$$$$$$$$$$$''],
          rng = \<lparr>seed_of = 0, pos = 1\<rparr>\<rparr>"
    by code_simp
  have p: "(0::int) < 2" by simp
  from counter_cap_and_exact_count [OF h] p
  have "counter_get (freq \<lparr>freq = [(''A'', 2)],
          clients_triehh = [''A$'', ''A$'', ''A$''],
          clients_sfp = [''A$$$$$$$$$$$$$$$'', ''A$$$$$$$$$$$$$$$'', ''A$$$$$$$$$$$$$$$''],
          rng = \<lparr>seed_of = 0, pos = 1\<rparr>\<rparr>) ''A'' \<le> 2"
    by blast
  then have c: "counter_get [(''A'', 2)] ''A'' \<le> 2"
    by (simp only: pstate.simps)
  have h0: "pass_rows draws_seed0 16 0 (Some ''link'')
     (take 2 [[''X'', ''A'', ''link'', ''3''], [''X'', ''B'', ''link'', ''1'']])
     (init_state (Random 0))
   = Inr \<lparr>freq = [(''A'', 3), (''B'', 1)],
          clients_triehh = [''A$'', ''A$'', ''A$'', ''B$''],
          clients_sfp = [''A$$$$$$$$$$$$$$$'', ''A$$$$$$$$$$$$$$$'', ''A$$$$$$$$$$$$$$$'',
                         ''B$$$$$$$$$$$$$$$''],
          rng = \<lparr>seed_of = 0, pos = 0\<rparr>\<rparr>"
    by code_simp
  from counter_cap_and_exact_count [OF h0]
  have "counter_get (freq \<lparr>freq = [(''A'', 3), (''B'', 1)],
          clients_triehh = [''A$'', ''A$'', ''A$'', ''B$''],
          clients_sfp = [''A$$$$$$$$$$$$$$$'', ''A$$$$$$$$$$$$$$$'', ''A$$$$$$$$$$$$$$$'',
                         ''B$$$$$$$$$$$$$$$''],
          rng = \<lparr>seed_of = 0, pos = 0\<rparr>\<rparr>) ''A''
       = cumulative_count (Some ''link'')
           (take 2 [[''X'', ''A'', ''link'', ''3''], [''X'', ''B'', ''link'', ''1'']]) ''A''"
    by blast
  then have c0: "counter_get [(''A'', 3), (''B'', 1)] ''A''
       = cumulative_count (Some ''link'')
           (take 2 [[''X'', ''A'', ''link'', ''3''], [''X'', ''B'', ''link'', ''1'']]) ''A''"
    by (simp only: pstate.simps)
  from h p c h0 c0 show ?thesis by (intro conjI)
qed

section \<open>The frequency table\<close>

lemma preprocess_Inr:
  assumes "preprocess gen rows max_len cap keep_type seed = Inr out"
  obtains st where
    "pass_rows gen max_len cap keep_type rows (init_state (Random seed)) = Inr st"
    "\<not> (freq st \<noteq> [] \<and> clients_triehh st = [])"
    "out = \<lparr>clients_A = clients_triehh st, clients_B = clients_sfp st,
            frequencies = map (\<lambda>(w, c). (w, of_int c / of_nat (length (clients_triehh st)))) (freq st)\<rparr>"
  using assms unfolding preprocess_def rel_freq_def
  by (auto split: sum.splits if_splits)

lemma sum_rel_freq:
  "sum_list (map snd (map (\<lambda>(w, c). (w, rat_of_int c / of_nat n)) fr))
     = of_int (counter_total fr) / of_nat n"
  by (induction fr) (auto simp: counter_total_def add_divide_distrib)

text \<open>
  Claim C5. When the program completes, the frequency table is computed from the state
  that the pass over all the rows leaves: it has one entry for each item of the counter,
  in the counter's order, and maps every token of the counter to its count divided by the
  length of \<open>clients_triehh\<close>.
\<close>

theorem frequency_table_from_final_counter:
  assumes "preprocess gen rows max_len cap keep_type seed = Inr out"
  shows "\<exists>st. pass_rows gen max_len cap keep_type rows (init_state (Random seed)) = Inr st
          \<and> clients_A out = clients_triehh st
          \<and> map fst (frequencies out) = map fst (freq st)
          \<and> (\<forall>t\<in>fst ` set (freq st).
                map_of (frequencies out) t
                  = Some (of_int (counter_get (freq st) t) / of_nat (length (clients_triehh st))))"
proof -
  from assms obtain st where
    p: "pass_rows gen max_len cap keep_type rows (init_state (Random seed)) = Inr st"
    and o: "out = \<lparr>clients_A = clients_triehh st, clients_B = clients_sfp st,
            frequencies = map (\<lambda>(w, c). (w, of_int c / of_nat (length (clients_triehh st)))) (freq st)\<rparr>"
    by (rule preprocess_Inr)
  have k: "map fst (frequencies out) = map fst (freq st)"
    unfolding o by (simp add: case_prod_unfold comp_def)
  have "map_of (frequencies out) t
          = Some (of_int (counter_get (freq st) t) / of_nat (length (clients_triehh st)))"
    if "t \<in> fst ` set (freq st)" for t
  proof -
    from that obtain v where v: "map_of (freq st) t = Some v"
      by (metis domD dom_map_of_conv_image_fst)
    then show ?thesis
      unfolding o by (simp add: map_of_map counter_get_def)
  qed
  with p k o show ?thesis by auto
qed

theorem frequency_table_from_final_counter_witness:
  "preprocess draws_seed0 [[''X'', ''A'', ''link'', ''3''], [''X'', ''B'', ''link'', ''1'']]
     16 0 (Some ''link'') 0
   = Inr \<lparr>clients_A = [''A$'', ''A$'', ''A$'', ''B$''],
          clients_B = [''A$$$$$$$$$$$$$$$'', ''A$$$$$$$$$$$$$$$'', ''A$$$$$$$$$$$$$$$'',
                       ''B$$$$$$$$$$$$$$$''],
          frequencies = [(''A'', 3 / 4), (''B'', 1 / 4)]\<rparr>
   \<and> (\<exists>st. pass_rows draws_seed0 16 0 (Some ''link'')
              [[''X'', ''A'', ''link'', ''3''], [''X'', ''B'', ''link'', ''1'']]
              (init_state (Random 0)) = Inr st
          \<and> [''A$'', ''A$'', ''A$'', ''B$''] = clients_triehh st
          \<and> map fst [(''A'', 3 / 4 :: rat), (''B'', 1 / 4)] = map fst (freq st)
          \<and> (\<forall>t\<in>fst ` set (freq st).
                map_of [(''A'', 3 / 4 :: rat), (''B'', 1 / 4)] t
                  = Some (of_int (counter_get (freq st) t) / of_nat (length (clients_triehh st)))))"
proof -
  have h: "preprocess draws_seed0 [[''X'', ''A'', ''link'', ''3''], [''X'', ''B'', ''link'', ''1'']]
     16 0 (Some ''link'') 0
   = Inr \<lparr>clients_A = [''A$'', ''A$'', ''A$'', ''B$''],
          clients_B = [''A$$$$$$$$$$$$$$$'', ''A$$$$$$$$$$$$$$$'', ''A$$$$$$$$$$$$$$$'',
                       ''B$$$$$$$$$$$$$$$''],
          frequencies = [(''A'', 3 / 4), (''B'', 1 / 4)]\<rparr>"
    by code_simp
  from frequency_table_from_final_counter [OF h]
  have c: "\<exists>st. pass_rows draws_seed0 16 0 (Some ''link'')
              [[''X'', ''A'', ''link'', ''3''], [''X'', ''B'', ''link'', ''1'']]
              (init_state (Random 0)) = Inr st
          \<and> [''A$'', ''A$'', ''A$'', ''B$''] = clients_triehh st
          \<and> map fst [(''A'', 3 / 4 :: rat), (''B'', 1 / 4)] = map fst (freq st)
          \<and> (\<forall>t\<in>fst ` set (freq st).
                map_of [(''A'', 3 / 4 :: rat), (''B'', 1 / 4)] t
                  = Some (of_int (counter_get (freq st) t) / of_nat (length (clients_triehh st))))"
    by (simp only: outputs.simps)
  from h c show ?thesis by (intro conjI)
qed

text \<open>
  Claim C4, as amended. When at least one client was emitted, the values of the frequency
  table sum, in exact arithmetic (the table of floats is its rounding), to the sum of
  the emission counter over the number of emitted clients. With capping on this is 1
  less the share of the emitted clients that were accepted at the cap, so it is 1 when no
  occurrence was accepted at the cap; with capping off it is 1 when no surviving row has
  a negative count.
\<close>

theorem frequencies_sum:
  assumes "preprocess gen rows max_len cap keep_type seed = Inr out"
    and "clients_A out \<noteq> []"
  shows "(cap \<noteq> 0 \<longrightarrow>
           (\<exists>st. pass_rows gen max_len cap keep_type rows (init_state (Random seed)) = Inr st
              \<and> sum_list (map snd (frequencies out))
                  = 1 - of_nat (accepted_at_cap gen seed cap 0 (pos (rng st)))
                        / of_nat (length (clients_A out))))
       \<and> (cap = 0 \<and> (\<forall>row\<in>set rows. survives keep_type row \<longrightarrow> 0 \<le> row_count row)
            \<longrightarrow> sum_list (map snd (frequencies out)) = 1)"
proof -
  from assms(1) obtain st where
    p: "pass_rows gen max_len cap keep_type rows (init_state (Random seed)) = Inr st"
    and o: "out = \<lparr>clients_A = clients_triehh st, clients_B = clients_sfp st,
            frequencies = map (\<lambda>(w, c). (w, of_int c / of_nat (length (clients_triehh st)))) (freq st)\<rparr>"
    by (rule preprocess_Inr)
  from assms(2) o have pos: "0 < length (clients_triehh st)" by simp
  have la: "length (clients_A out) = length (clients_triehh st)"
    unfolding o by simp
  have s: "sum_list (map snd (frequencies out))
             = of_int (counter_total (freq st)) / of_nat (length (clients_triehh st))"
    unfolding o by (simp only: outputs.simps sum_rel_freq)
  have 1: "sum_list (map snd (frequencies out))
             = 1 - of_nat (accepted_at_cap gen seed cap 0 (pos (rng st)))
                   / of_nat (length (clients_A out))"
    if "cap \<noteq> 0"
  proof -
    from pass_rows_accepted_at_cap [OF p that]
    have "counter_total (freq st)
            = int (length (clients_triehh st))
              - int (accepted_at_cap gen seed cap 0 (pos (rng st)))"
      by (simp add: Random_def)
    then have "rat_of_int (counter_total (freq st))
            = of_nat (length (clients_triehh st))
              - of_nat (accepted_at_cap gen seed cap 0 (pos (rng st)))"
      by simp
    with pos show ?thesis unfolding s la by (simp add: diff_divide_distrib)
  qed
  have 2: "sum_list (map snd (frequencies out)) = 1"
    if h: "cap = 0 \<and> (\<forall>row\<in>set rows. survives keep_type row \<longrightarrow> 0 \<le> row_count row)"
  proof -
    have "counter_total (freq st) = int (length (clients_triehh st))"
    proof (rule pass_rows_exact)
      from p h show "pass_rows gen max_len 0 keep_type rows (init_state (Random seed)) = Inr st"
        by simp
      show "counter_total (freq (init_state (Random seed)))
              = int (length (clients_triehh (init_state (Random seed))))"
        by (simp add: init_state_simps counter_total_def)
      from h show "\<forall>row\<in>set rows. survives keep_type row \<longrightarrow> 0 \<le> row_count row"
        by simp
    qed
    with pos show ?thesis unfolding s by simp
  qed
  from p 1 2 show ?thesis by blast
qed

theorem frequencies_sum_witness:
  "preprocess draws_seed0 [[''X'', ''A'', ''link'', ''3''], [''Y'', ''B'', ''link'', ''1'']]
     4 0 (Some ''link'') 0
   = Inr \<lparr>clients_A = [''A$'', ''A$'', ''A$'', ''B$''],
          clients_B = [''A$$$'', ''A$$$'', ''A$$$'', ''B$$$''],
          frequencies = [(''A'', 3 / 4), (''B'', 1 / 4)]\<rparr>
   \<and> [''A$'', ''A$'', ''A$'', ''B$''] \<noteq> []
   \<and> list_all (\<lambda>row. survives (Some ''link'') row \<longrightarrow> 0 \<le> row_count row)
         [[''X'', ''A'', ''link'', ''3''], [''Y'', ''B'', ''link'', ''1'']]
   \<and> sum_list (map snd [(''A'', 3 / 4 :: rat), (''B'', 1 / 4)]) = 1
   \<and> preprocess draws_seed0 [[''X'', ''A'', ''link'', ''3''], [''Y'', ''B'', ''link'', ''1'']]
     4 5000 (Some ''link'') 0
   = Inr \<lparr>clients_A = [''A$'', ''A$'', ''A$'', ''B$''],
          clients_B = [''A$$$'', ''A$$$'', ''A$$$'', ''B$$$''],
          frequencies = [(''A'', 3 / 4), (''B'', 1 / 4)]\<rparr>
   \<and> (5000 :: int) \<noteq> 0
   \<and> (\<exists>st. pass_rows draws_seed0 4 5000 (Some ''link'')
              [[''X'', ''A'', ''link'', ''3''], [''Y'', ''B'', ''link'', ''1'']]
              (init_state (Random 0)) = Inr st
          \<and> sum_list (map snd [(''A'', 3 / 4 :: rat), (''B'', 1 / 4)])
              = 1 - of_nat (accepted_at_cap draws_seed0 0 5000 0 (pos (rng st)))
                    / of_nat (length [''A$'', ''A$'', ''A$'', ''B$'']))"
proof -
  have h: "preprocess draws_seed0 [[''X'', ''A'', ''link'', ''3''], [''Y'', ''B'', ''link'', ''1'']]
     4 0 (Some ''link'') 0
   = Inr \<lparr>clients_A = [''A$'', ''A$'', ''A$'', ''B$''],
          clients_B = [''A$$$'', ''A$$$'', ''A$$$'', ''B$$$''],
          frequencies = [(''A'', 3 / 4), (''B'', 1 / 4)]\<rparr>"
    by code_simp
  have l: "list_all (\<lambda>row. survives (Some ''link'') row \<longrightarrow> 0 \<le> row_count row)
         [[''X'', ''A'', ''link'', ''3''], [''Y'', ''B'', ''link'', ''1'']]"
    by code_simp
  then have n: "\<forall>row\<in>set [[''X'', ''A'', ''link'', ''3''], [''Y'', ''B'', ''link'', ''1'']].
         survives (Some ''link'') row \<longrightarrow> 0 \<le> row_count row"
    by (simp only: list_all_iff)
  have e: "[''A$'', ''A$'', ''A$'', ''B$''] \<noteq> []" by simp
  from frequencies_sum [OF h] e n
  have c: "sum_list (map snd [(''A'', 3 / 4 :: rat), (''B'', 1 / 4)]) = 1"
    by (simp only: outputs.simps) blast
  have h2: "preprocess draws_seed0 [[''X'', ''A'', ''link'', ''3''], [''Y'', ''B'', ''link'', ''1'']]
     4 5000 (Some ''link'') 0
   = Inr \<lparr>clients_A = [''A$'', ''A$'', ''A$'', ''B$''],
          clients_B = [''A$$$'', ''A$$$'', ''A$$$'', ''B$$$''],
          frequencies = [(''A'', 3 / 4), (''B'', 1 / 4)]\<rparr>"
    by code_simp
  have p2: "(5000 :: int) \<noteq> 0" by simp
  from frequencies_sum [OF h2] e p2
  have c2: "\<exists>st. pass_rows draws_seed0 4 5000 (Some ''link'')
              [[''X'', ''A'', ''link'', ''3''], [''Y'', ''B'', ''link'', ''1'']]
              (init_state (Random 0)) = Inr st
          \<and> sum_list (map snd [(''A'', 3 / 4 :: rat), (''B'', 1 / 4)])
              = 1 - of_nat (accepted_at_cap draws_seed0 0 5000 0 (pos (rng st)))
                    / of_nat (length [''A$'', ''A$'', ''A$'', ''B$''])"
    by (simp only: outputs.simps) blast
  from h e l c h2 p2 c2 show ?thesis by (intro conjI)
qed

text \<open>
  The claim as stated fails with \<open>cap = 1\<close>: two clients are emitted for the token and
  its capped counter is 1, so the only frequency is \<open>1/2\<close>.
\<close>

theorem frequencies_sum_counterexample:
  "preprocess draws_seed0 [[''X'', ''A'', ''link'', ''1''], [''Y'', ''A'', ''link'', ''1'']]
     4 1 (Some ''link'') 0
   = Inr \<lparr>clients_A = [''A$'', ''A$''], clients_B = [''A$$$'', ''A$$$''],
          frequencies = [(''A'', 1 / 2)]\<rparr>
   \<and> sum_list (map snd [(''A'', 1 / 2 :: rat)]) \<noteq> 1"
  by code_simp

section \<open>Rows that cannot be converted, and a negative cap\<close>

lemma process_row_good:
  assumes "\<not> bad_count keep_type row"
  shows "\<exists>st'. process_row gen max_len cap keep_type row st = Inr st'"
proof (cases rule: process_row_cases [where keep_type = keep_type and row = row])
  case skip
  then show ?thesis by (simp add: process_row_skip)
next
  case raise
  with assms show ?thesis by (simp add: bad_count_def)
next
  case (count c)
  show ?thesis
  proof (cases "cap = 0")
    case True
    with count show ?thesis by (simp add: process_row_uncapped)
  next
    case False
    show ?thesis
    proof (cases "cap + 1 = 0")
      case True
      with count False show ?thesis by (simp add: process_row_capped)
    next
      case False
      with count \<open>cap \<noteq> 0\<close> sample_loop_no_error [OF False] show ?thesis
        by (simp add: process_row_capped)
    qed
  qed
qed

lemma pass_rows_bad_count:
  "\<exists>row\<in>set rows. bad_count keep_type row \<Longrightarrow>
     pass_rows gen max_len cap keep_type rows st = Inl ValueError"
proof (induction rows arbitrary: st)
  case Nil
  then show ?case by simp
next
  case (Cons row rows)
  show ?case
  proof (cases "bad_count keep_type row")
    case True
    then show ?thesis by (simp add: process_row_bad_count)
  next
    case False
    with Cons.prems have rest: "\<exists>row\<in>set rows. bad_count keep_type row" by simp
    from process_row_good [OF False] obtain st' where
      "process_row gen max_len cap keep_type row st = Inr st'" by blast
    with Cons.IH [OF rest] show ?thesis by simp
  qed
qed

text \<open>
  Claim C10. A row with four fields that passes the kind filter and whose count field is
  not accepted by \<^verbatim>\<open>int\<close> makes the whole run end in \<^verbatim>\<open>ValueError\<close>, wherever the row
  stands in the input; a row that has not four fields or fails the kind filter leaves the
  state as it is.
\<close>

theorem non_integer_count_aborts:
  "(row \<in> set rows \<and> length row = 4 \<and> (truthy keep_type \<longrightarrow> Some (row ! 2) = keep_type)
      \<and> py_int (row ! 3) = None
      \<longrightarrow> preprocess gen rows max_len cap keep_type seed = Inl ValueError)
   \<and> (length row \<noteq> 4 \<or> (truthy keep_type \<and> Some (row ! 2) \<noteq> keep_type)
      \<longrightarrow> process_row gen max_len cap keep_type row st = Inr st)"
proof (intro conjI impI)
  assume "row \<in> set rows \<and> length row = 4 \<and> (truthy keep_type \<longrightarrow> Some (row ! 2) = keep_type)
      \<and> py_int (row ! 3) = None"
  then have "\<exists>row\<in>set rows. bad_count keep_type row"
    by (auto simp: bad_count_def survives_def)
  then have "pass_rows gen max_len cap keep_type rows (init_state (Random seed)) = Inl ValueError"
    by (rule pass_rows_bad_count)
  then show "preprocess gen rows max_len cap keep_type seed = Inl ValueError"
    by (simp add: preprocess_def)
next
  assume "length row \<noteq> 4 \<or> (truthy keep_type \<and> Some (row ! 2) \<noteq> keep_type)"
  then have "\<not> survives keep_type row" by (auto simp: survives_def)
  then show "process_row gen max_len cap keep_type row st = Inr st"
    by (rule process_row_skip)
qed

theorem non_integer_count_aborts_witness:
  "[''X'', ''B'', ''link'', ''12a''] \<in> set [[''X'', ''A'', ''link'', ''2''], [''X'', ''B'', ''link'', ''12a'']]
   \<and> length [''X'', ''B'', ''link'', ''12a''] = 4
   \<and> Some ([''X'', ''B'', ''link'', ''12a''] ! 2) = Some ''link''
   \<and> py_int ([''X'', ''B'', ''link'', ''12a''] ! 3) = None
   \<and> preprocess draws_seed0 [[''X'', ''A'', ''link'', ''2''], [''X'', ''B'', ''link'', ''12a'']]
        16 5000 (Some ''link'') 0 = Inl ValueError
   \<and> truthy (Some ''link'') \<and> Some ([''X'', ''B'', ''other'', ''12a''] ! 2) \<noteq> Some ''link''
   \<and> process_row draws_seed0 16 5000 (Some ''link'') [''X'', ''B'', ''other'', ''12a'']
        (init_state (Random 0)) = Inr (init_state (Random 0))"
proof -
  have 5: "truthy (Some ''link'')" by (simp add: truthy_def)
  have 6: "Some ([''X'', ''B'', ''other'', ''12a''] ! 2) \<noteq> Some ''link''" by simp
  from non_integer_count_aborts [where row = "[''X'', ''B'', ''other'', ''12a'']"
      and keep_type = "Some ''link''" and gen = draws_seed0 and max_len = 16 and cap = 5000
      and st = "init_state (Random 0)"] 5 6
  have 7: "process_row draws_seed0 16 5000 (Some ''link'') [''X'', ''B'', ''other'', ''12a'']
        (init_state (Random 0)) = Inr (init_state (Random 0))"
    by blast
  have 1: "[''X'', ''B'', ''link'', ''12a''] \<in> set [[''X'', ''A'', ''link'', ''2''], [''X'', ''B'', ''link'', ''12a'']]"
    by simp
  have 2: "length [''X'', ''B'', ''link'', ''12a''] = 4" by simp
  have 3: "Some ([''X'', ''B'', ''link'', ''12a''] ! 2) = Some ''link''" by simp
  have 4: "py_int ([''X'', ''B'', ''link'', ''12a''] ! 3) = None" by code_simp
  from non_integer_count_aborts [of "[''X'', ''B'', ''link'', ''12a'']"
      "[[''X'', ''A'', ''link'', ''2''], [''X'', ''B'', ''link'', ''12a'']]" "Some ''link''"
      draws_seed0 16 5000 0] 1 2 3 4
  have "preprocess draws_seed0 [[''X'', ''A'', ''link'', ''2''], [''X'', ''B'', ''link'', ''12a'']]
        16 5000 (Some ''link'') 0 = Inl ValueError"
    by blast
  with 1 2 3 4 5 6 7 show ?thesis by (intro conjI)
qed

text \<open>
  Claim C7, as amended. A negative cap is accepted: no configuration error is raised.
  The cap is nonzero, so capping is on, every count is clamped to the negative cap and no
  occurrence is ever requested: the run ends with three empty results, unless a surviving
  row has a count field that \<^verbatim>\<open>int\<close> rejects.
\<close>

theorem negative_cap_outcome:
  "cap < 0 \<Longrightarrow>
     preprocess gen rows max_len cap keep_type seed =
       (if \<exists>row\<in>set rows. survives keep_type row \<and> py_int (row ! 3) = None
        then Inl ValueError
        else Inr \<lparr>clients_A = [], clients_B = [], frequencies = []\<rparr>)"
  by (simp add: preprocess_def pass_rows_negative_cap rel_freq_def init_state_simps
      bad_count_def)

theorem negative_cap_outcome_witness:
  "(-5 :: int) < 0
   \<and> preprocess draws_seed0 [[''X'', ''A'', ''link'', ''3'']] 16 (-5) (Some ''link'') 0
     = (if \<exists>row\<in>set [[''X'', ''A'', ''link'', ''3'']].
             survives (Some ''link'') row \<and> py_int (row ! 3) = None
        then Inl ValueError
        else Inr \<lparr>clients_A = [], clients_B = [], frequencies = []\<rparr>)"
proof -
  have n: "(-5 :: int) < 0" by simp
  from negative_cap_outcome [OF n] n show ?thesis by (intro conjI)
qed

text \<open>
  The claim as stated fails at \<open>cap = -1\<close>: a row with count 3 is read, nothing is
  emitted and the run completes.
\<close>

theorem negative_cap_counterexample:
  "preprocess draws_seed0 [[''X'', ''A'', ''link'', ''3'']] 16 (-1) (Some ''link'') 0
     = Inr \<lparr>clients_A = [], clients_B = [], frequencies = []\<rparr>"
  by code_simp

section \<open>No emitted client, the two reserved characters, repeated runs\<close>

lemma reservoir_extend_False:
  assumes "reservoir_extend gen c e k g = Inr (False, c', g')"
  shows "k \<le> counter_get c e"
proof (rule ccontr)
  assume "\<not> k \<le> counter_get c e"
  with assms show False by (simp add: reservoir_extend_accept)
qed

lemma sample_loop_untouched:
  "sample_loop gen n cur cap max_len st = Inr st' \<Longrightarrow> 0 < cap \<Longrightarrow>
   clients_triehh st = [] \<longrightarrow> freq st = [] \<Longrightarrow>
   clients_triehh st' = [] \<longrightarrow> freq st' = []"
proof (induction n arbitrary: st)
  case 0
  then show ?case by simp
next
  case (Suc n)
  from Suc.prems(1) show ?case
  proof (cases rule: sample_loop_step)
    case (1 acc c g)
    show ?thesis
    proof (cases acc)
      case True
      with 1(2) Suc.prems(2) show ?thesis
        by (intro Suc.IH [where st = "st\<lparr>freq := c, rng := g,
                     clients_triehh := clients_triehh st @ [add_end_symbol cur],
                     clients_sfp := clients_sfp st @ [truncate_or_pad cur max_len]\<rparr>"]) simp_all
    next
      case False
      with 1(1) have "cap \<le> counter_get (freq st) cur"
        by (auto dest: reservoir_extend_False)
      with Suc.prems(2) have "freq st \<noteq> []"
        by (auto simp: counter_get_def)
      with Suc.prems(3) have "clients_triehh st \<noteq> []" by blast
      with 1(2) False Suc.prems(2) show ?thesis
        by (intro Suc.IH [where st = "st\<lparr>freq := c, rng := g\<rparr>"]) simp_all
    qed
  qed
qed

lemma process_row_untouched:
  assumes "process_row gen max_len cap keep_type row st = Inr st'"
    and "cap \<noteq> 0" and "clients_triehh st = [] \<longrightarrow> freq st = []"
  shows "clients_triehh st' = [] \<longrightarrow> freq st' = []"
proof (cases "cap < 0")
  case True
  with assms show ?thesis by (simp add: process_row_negative_cap split: if_splits)
next
  case False
  with assms(2) have pos: "0 < cap" by simp
  show ?thesis
  proof (cases rule: process_row_cases [where keep_type = keep_type and row = row])
    case skip
    with assms show ?thesis by (simp add: process_row_skip)
  next
    case raise
    with assms show ?thesis by (simp add: process_row_raise)
  next
    case (count c)
    with assms have "sample_loop gen (nat (min c cap)) (row ! 1) cap max_len st = Inr st'"
      by (simp add: process_row_capped)
    then show ?thesis using pos assms(3) by (rule sample_loop_untouched)
  qed
qed

lemma pass_rows_untouched:
  "pass_rows gen max_len cap keep_type rows st = Inr st' \<Longrightarrow> cap \<noteq> 0 \<Longrightarrow>
   clients_triehh st = [] \<longrightarrow> freq st = [] \<Longrightarrow>
   clients_triehh st' = [] \<longrightarrow> freq st' = []"
proof (induction rows arbitrary: st)
  case Nil
  then show ?case by simp
next
  case (Cons row rows)
  from Cons.prems(1) obtain st1 where
    1: "process_row gen max_len cap keep_type row st = Inr st1"
    and 2: "pass_rows gen max_len cap keep_type rows st1 = Inr st'"
    by (auto split: sum.splits)
  from 2 Cons.prems(2) process_row_untouched [OF 1 Cons.prems(2,3)]
  show ?case by (rule Cons.IH)
qed

text \<open>
  Claim C6, as amended. When the pass ends with no client emitted and an empty counter,
  the program completes normally with three empty results: there is no diagnostic for
  this condition. With capping on (\<open>cap \<noteq> 0\<close>) the counter is always empty when no client
  was emitted.
\<close>

theorem zero_emitted_outcome:
  assumes "pass_rows gen max_len cap keep_type rows (init_state (Random seed)) = Inr st"
    and "clients_triehh st = []"
  shows "(freq st = [] \<longrightarrow>
            preprocess gen rows max_len cap keep_type seed
              = Inr \<lparr>clients_A = [], clients_B = [], frequencies = []\<rparr>)
       \<and> (cap \<noteq> 0 \<longrightarrow> freq st = [])"
proof (intro conjI impI)
  have "length (clients_triehh st) = length (clients_sfp st)"
    using assms(1) by (rule pass_rows_aligned) (simp add: init_state_simps)
  with assms(2) have b: "clients_sfp st = []" by simp
  assume "freq st = []"
  with assms b show "preprocess gen rows max_len cap keep_type seed
              = Inr \<lparr>clients_A = [], clients_B = [], frequencies = []\<rparr>"
    by (simp add: preprocess_def rel_freq_def)
next
  assume "cap \<noteq> 0"
  with assms(1) have "clients_triehh st = [] \<longrightarrow> freq st = []"
    by (rule pass_rows_untouched) (simp add: init_state_simps)
  with assms(2) show "freq st = []" by simp
qed

theorem zero_emitted_outcome_witness:
  "pass_rows draws_seed0 16 5000 (Some ''link'') [[''X'', ''A'', ''other'', ''3'']]
     (init_state (Random 0))
     = Inr \<lparr>freq = [], clients_triehh = [], clients_sfp = [], rng = \<lparr>seed_of = 0, pos = 0\<rparr>\<rparr>
   \<and> (5000 :: int) \<noteq> 0
   \<and> preprocess draws_seed0 [[''X'', ''A'', ''other'', ''3'']] 16 5000 (Some ''link'') 0
       = Inr \<lparr>clients_A = [], clients_B = [], frequencies = []\<rparr>"
proof -
  have h: "pass_rows draws_seed0 16 5000 (Some ''link'') [[''X'', ''A'', ''other'', ''3'']]
     (init_state (Random 0))
     = Inr \<lparr>freq = [], clients_triehh = [], clients_sfp = [], rng = \<lparr>seed_of = 0, pos = 0\<rparr>\<rparr>"
    by code_simp
  have e: "clients_triehh \<lparr>freq = [], clients_triehh = [], clients_sfp = [],
             rng = \<lparr>seed_of = 0, pos = 0\<rparr>\<rparr> = []"
    by simp
  have n: "(5000 :: int) \<noteq> 0" by simp
  from zero_emitted_outcome [OF h e] n
  have "preprocess draws_seed0 [[''X'', ''A'', ''other'', ''3'']] 16 5000 (Some ''link'') 0
       = Inr \<lparr>clients_A = [], clients_B = [], frequencies = []\<rparr>"
    by blast
  with h n show ?thesis by (intro conjI)
qed

text \<open>
  The claim as stated fails on an empty input: nothing is emitted and the program
  completes with three empty results.
\<close>

theorem zero_emitted_counterexample:
  "preprocess draws_seed0 [] 16 5000 (Some ''link'') 0
     = Inr \<lparr>clients_A = [], clients_B = [], frequencies = []\<rparr>"
  by code_simp

text \<open>
  Claim C8, as amended. The terminator that \<open>add_end_symbol\<close> appends and the filler
  that \<open>truncate_or_pad\<close> pads with are the same character, the dollar sign; neither
  function looks at the characters of the token.
\<close>

theorem terminator_and_filler:
  "add_end_symbol s = s @ [CHR ''$'']
   \<and> (int (length s) \<le> L \<longrightarrow>
        truncate_or_pad s L = s @ replicate (nat L - length s) (CHR ''$''))
   \<and> (0 \<le> L \<and> L \<le> int (length s) \<longrightarrow> truncate_or_pad s L = take (nat L) s)"
  by (auto simp: add_end_symbol_def truncate_or_pad_def ljust_def slice_to_def nat_diff_distrib')

theorem terminator_and_filler_witness:
  "int (length ''Io'') \<le> 4 \<and> truncate_or_pad ''Io'' 4 = ''Io$$''
   \<and> (0::int) \<le> 4 \<and> 4 \<le> int (length ''Apollo'') \<and> truncate_or_pad ''Apollo'' 4 = ''Apol''
   \<and> add_end_symbol ''Apollo'' = ''Apollo$''"
  using terminator_and_filler [of "''Io''" 4] terminator_and_filler [of "''Apollo''" 4]
  by (simp add: numeral_2_eq_2)

text \<open>
  The claim as stated fails: the last character of Encoding A of a token is the filler
  of its Encoding B.
\<close>

theorem terminator_and_filler_counterexample:
  "last (add_end_symbol ''Io'') = last (truncate_or_pad ''Io'' 4)"
  by code_simp

lemma reservoir_extend_seed:
  "reservoir_extend gen c e k g = Inr (acc, c', g') \<Longrightarrow> seed_of g' = seed_of g"
proof (induction gen c e k g rule: reservoir_extend.induct)
  case (1 gen container elem k rng)
  show ?case
  proof (cases rule: reservoir_extend_cases [where gen=gen and k=k and c=container and e=elem and g=rng])
    case accept
    with "1.prems" show ?thesis by (auto simp: reservoir_extend_accept)
  next
    case raise
    with "1.prems" show ?thesis by (simp add: reservoir_extend_raise)
  next
    case reject
    with "1.prems" show ?thesis by (auto simp: reservoir_extend_reject random_py_def)
  next
    case retry
    with "1.prems" have "seed_of g' = seed_of (snd (random_py gen rng))"
      by (intro "1.IH") (simp_all add: reservoir_extend_retry)
    then show ?thesis by (simp add: random_py_def)
  qed
qed

lemma reservoir_extend_same_stream:
  "\<forall>n. gen (seed_of g) n = gen2 (seed_of g) n \<Longrightarrow>
     reservoir_extend gen c e k g = reservoir_extend gen2 c e k g"
proof (induction gen c e k g rule: reservoir_extend.induct)
  case (1 gen container elem k rng)
  from "1.prems" have r: "random_py gen2 rng = random_py gen rng"
    by (simp add: random_py_def)
  show ?case
  proof (cases rule: reservoir_extend_cases [where gen=gen and k=k and c=container and e=elem and g=rng])
    case accept
    then show ?thesis by (simp add: reservoir_extend_accept)
  next
    case raise
    then show ?thesis by (simp add: reservoir_extend_raise)
  next
    case reject
    then show ?thesis
      by (simp add: reservoir_extend_reject [where gen=gen] reservoir_extend_reject [where gen=gen2] r)
  next
    case retry
    have "reservoir_extend gen container elem k rng =
            reservoir_extend gen (counter_set container elem (counter_get container elem - 1))
              elem k (snd (random_py gen rng))"
      using retry by (rule reservoir_extend_retry)
    also have "\<dots> = reservoir_extend gen2 (counter_set container elem (counter_get container elem - 1))
              elem k (snd (random_py gen rng))"
      using retry "1.prems" by (intro "1.IH") (simp_all add: random_py_def)
    also have "\<dots> = reservoir_extend gen2 container elem k rng"
      using retry by (subst (2) reservoir_extend_retry) (simp_all add: r)
    finally show ?thesis .
  qed
qed

lemma sample_loop_seed:
  "sample_loop gen n cur cap max_len st = Inr st' \<Longrightarrow> seed_of (rng st') = seed_of (rng st)"
proof (induction n arbitrary: st)
  case 0
  then show ?case by simp
next
  case (Suc n)
  from Suc.prems(1) show ?case
  proof (cases rule: sample_loop_step)
    case (1 acc c g)
    from Suc.IH [OF 1(2)] reservoir_extend_seed [OF 1(1)] show ?thesis
      by (simp split: if_splits)
  qed
qed

lemma sample_loop_same_stream:
  "\<forall>m. gen (seed_of (rng st)) m = gen2 (seed_of (rng st)) m \<Longrightarrow>
     sample_loop gen n cur cap max_len st = sample_loop gen2 n cur cap max_len st"
proof (induction n arbitrary: st)
  case 0
  then show ?case by simp
next
  case (Suc n)
  have r: "reservoir_extend gen2 (freq st) cur cap (rng st)
             = reservoir_extend gen (freq st) cur cap (rng st)"
    using Suc.prems by (simp add: reservoir_extend_same_stream)
  show ?case
  proof (cases "reservoir_extend gen (freq st) cur cap (rng st)")
    case (Inl e)
    with r show ?thesis by simp
  next
    case (Inr res)
    obtain acc c g where res: "res = (acc, c, g)" by (cases res)
    from Inr res have sd: "seed_of g = seed_of (rng st)"
      by (auto dest: reservoir_extend_seed)
    show ?thesis
    proof (cases acc)
      case True
      with Inr res r sd Suc.prems show ?thesis
        by (simp add: Suc.IH)
    next
      case False
      with Inr res r sd Suc.prems show ?thesis
        by (simp add: Suc.IH)
    qed
  qed
qed

lemma process_row_seed:
  assumes "process_row gen max_len cap keep_type row st = Inr st'"
  shows "seed_of (rng st') = seed_of (rng st)"
proof (cases rule: process_row_cases [where keep_type = keep_type and row = row])
  case skip
  with assms show ?thesis by (simp add: process_row_skip)
next
  case raise
  with assms show ?thesis by (simp add: process_row_raise)
next
  case (count c)
  show ?thesis
  proof (cases "cap = 0")
    case True
    with count assms show ?thesis by (auto simp: process_row_uncapped)
  next
    case False
    with count assms show ?thesis by (auto simp: process_row_capped dest: sample_loop_seed)
  qed
qed

lemma process_row_same_stream:
  assumes "\<forall>m. gen (seed_of (rng st)) m = gen2 (seed_of (rng st)) m"
  shows "process_row gen max_len cap keep_type row st = process_row gen2 max_len cap keep_type row st"
proof (cases rule: process_row_cases [where keep_type = keep_type and row = row])
  case skip
  then show ?thesis by (simp add: process_row_skip)
next
  case raise
  then show ?thesis by (simp add: process_row_raise)
next
  case (count c)
  show ?thesis
  proof (cases "cap = 0")
    case True
    with count show ?thesis by (simp add: process_row_uncapped)
  next
    case False
    with count assms show ?thesis
      by (simp add: process_row_capped sample_loop_same_stream)
  qed
qed

lemma pass_rows_same_stream:
  "\<forall>m. gen (seed_of (rng st)) m = gen2 (seed_of (rng st)) m \<Longrightarrow>
     pass_rows gen max_len cap keep_type rows st = pass_rows gen2 max_len cap keep_type rows st"
proof (induction rows arbitrary: st)
  case Nil
  then show ?case by simp
next
  case (Cons row rows)
  have r: "process_row gen2 max_len cap keep_type row st = process_row gen max_len cap keep_type row st"
    using Cons.prems by (simp add: process_row_same_stream)
  show ?case
  proof (cases "process_row gen max_len cap keep_type row st")
    case (Inl e)
    with r show ?thesis by simp
  next
    case (Inr st1)
    then have "seed_of (rng st1) = seed_of (rng st)" by (rule process_row_seed)
    with Cons.prems have "pass_rows gen max_len cap keep_type rows st1
                            = pass_rows gen2 max_len cap keep_type rows st1"
      by (intro Cons.IH) simp
    with Inr r show ?thesis by simp
  qed
qed

text \<open>
  Claim C9. Two runs on the same rows with the same seed and the same configuration
  give the same three results. The runs may differ in everything else about the
  library's generator: only the sequence of draws that belongs to the seed is read, from
  its first draw on, so two generators that agree on that sequence give the same results
  whatever they return for other seeds.
\<close>

theorem same_input_same_outputs:
  assumes "rows1 = rows2" and "seed1 = seed2" and "max_len1 = max_len2" and "cap1 = cap2"
    and "keep_type1 = keep_type2" and "\<forall>n. gen1 seed1 n = gen2 seed2 n"
  shows "preprocess gen1 rows1 max_len1 cap1 keep_type1 seed1
       = preprocess gen2 rows2 max_len2 cap2 keep_type2 seed2"
proof -
  from assms(2,6) have "\<forall>m. gen1 (seed_of (rng (init_state (Random seed1)))) m
                          = gen2 (seed_of (rng (init_state (Random seed1)))) m"
    by (simp add: init_state_simps Random_def)
  then have "pass_rows gen1 max_len1 cap1 keep_type1 rows1 (init_state (Random seed1))
           = pass_rows gen2 max_len1 cap1 keep_type1 rows1 (init_state (Random seed1))"
    by (rule pass_rows_same_stream)
  with assms(1-5) show ?thesis by (simp add: preprocess_def)
qed

theorem same_input_same_outputs_witness:
  "(\<forall>n. draws_seed0 0 n = draws_other 0 n)
   \<and> draws_seed0 1 0 \<noteq> draws_other 1 0
   \<and> preprocess draws_seed0 [[''X'', ''A'', ''link'', ''1''], [''Y'', ''A'', ''link'', ''1'']]
       16 1 (Some ''link'') 0
     = preprocess draws_other [[''X'', ''A'', ''link'', ''1''], [''Y'', ''A'', ''link'', ''1'']]
       16 1 (Some ''link'') 0
   \<and> preprocess draws_seed0 [[''X'', ''A'', ''link'', ''1''], [''Y'', ''A'', ''link'', ''1'']]
       16 1 (Some ''link'') 0
     = Inr \<lparr>clients_A = [''A$'', ''A$''],
            clients_B = [''A$$$$$$$$$$$$$$$'', ''A$$$$$$$$$$$$$$$''],
            frequencies = [(''A'', 1 / 2)]\<rparr>"
proof -
  have a: "\<forall>n. draws_seed0 0 n = draws_other 0 n"
    by (simp add: draws_seed0_def draws_other_def)
  have d: "draws_seed0 1 0 \<noteq> draws_other 1 0"
    by (simp add: draws_seed0_def draws_other_def)
  have e: "preprocess draws_seed0 [[''X'', ''A'', ''link'', ''1''], [''Y'', ''A'', ''link'', ''1'']]
       16 1 (Some ''link'') 0
     = preprocess draws_other [[''X'', ''A'', ''link'', ''1''], [''Y'', ''A'', ''link'', ''1'']]
       16 1 (Some ''link'') 0"
    by (rule same_input_same_outputs [where ?gen1.0 = draws_seed0 and ?gen2.0 = draws_other
          and ?seed1.0 = 0 and ?seed2.0 = 0, OF refl refl refl refl refl a])
  have v: "preprocess draws_seed0 [[''X'', ''A'', ''link'', ''1''], [''Y'', ''A'', ''link'', ''1'']]
       16 1 (Some ''link'') 0
     = Inr \<lparr>clients_A = [''A$'', ''A$''],
            clients_B = [''A$$$$$$$$$$$$$$$'', ''A$$$$$$$$$$$$$$$''],
            frequencies = [(''A'', 1 / 2)]\<rparr>"
    by code_simp
  from a d e v show ?thesis by (intro conjI)
qed

section \<open>The sampler against the specification\<close>

lemma spec_sampler_rejected_le:
  "spec_sampler k rejects i c = (False, c', i') \<Longrightarrow> c' \<le> c"
proof (induction k rejects i c rule: spec_sampler.induct)
  case (1 k rejects i c)
  show ?case
  proof (cases "k \<le> c \<and> \<not> rejects i")
    case True
    with "1.prems" have "spec_sampler k rejects (Suc i) (c - 1) = (False, c', i')"
      by (subst (asm) spec_sampler.simps) simp
    with True "1.IH" have "c' \<le> c - 1" by simp
    then show ?thesis by simp
  next
    case False
    with "1.prems" show ?thesis
      by (subst (asm) spec_sampler.simps) (auto split: if_splits)
  qed
qed

lemma reservoir_extend_spec:
  "k + 1 \<noteq> 0 \<Longrightarrow>
   reservoir_extend gen container elem k g =
     (case spec_sampler k (\<lambda>i. gen (seed_of g) i < of_int k / of_int (k + 1)) (pos g)
             (counter_get container elem) of
        (acc, c', i') \<Rightarrow>
          Inr (acc,
               if \<not> acc \<and> c' = counter_get container elem then container
               else counter_set container elem c',
               g\<lparr>pos := i'\<rparr>))"
proof (induction gen container elem k g rule: reservoir_extend.induct)
  case (1 gen container elem k rng)
  let ?rj = "\<lambda>i. gen (seed_of rng) i < of_int k / of_int (k + 1)"
  let ?c = "counter_get container elem"
  show ?case
  proof (cases rule: reservoir_extend_cases [where gen=gen and k=k and c=container and e=elem and g=rng])
    case accept
    then have "spec_sampler k ?rj (pos rng) ?c = (True, ?c + 1, pos rng)"
      by (subst spec_sampler.simps) simp
    with accept show ?thesis by (simp add: reservoir_extend_accept)
  next
    case raise
    with "1.prems" show ?thesis by simp
  next
    case reject
    then have "spec_sampler k ?rj (pos rng) ?c = (False, ?c, Suc (pos rng))"
      by (subst spec_sampler.simps) (simp add: random_py_def)
    with reject show ?thesis by (simp add: reservoir_extend_reject random_py_def)
  next
    case retry
    let ?container1 = "counter_set container elem (?c - 1)"
    let ?g1 = "snd (random_py gen rng)"
    obtain acc c' i' where s: "spec_sampler k ?rj (Suc (pos rng)) (?c - 1) = (acc, c', i')"
      by (metis prod_cases3)
    from retry s have u: "spec_sampler k ?rj (pos rng) ?c = (acc, c', i')"
      by (subst spec_sampler.simps) (simp add: random_py_def)
    have le: "c' \<le> ?c - 1" if "\<not> acc"
    proof (rule spec_sampler_rejected_le)
      from s that show "spec_sampler k ?rj (Suc (pos rng)) (?c - 1) = (False, c', i')" by simp
    qed
    have "reservoir_extend gen container elem k rng = reservoir_extend gen ?container1 elem k ?g1"
      using retry by (rule reservoir_extend_retry)
    also have "\<dots> = Inr (acc,
               if \<not> acc \<and> c' = ?c - 1 then ?container1 else counter_set ?container1 elem c',
               ?g1\<lparr>pos := i'\<rparr>)"
      using "1.IH" [OF retry] retry(2) s
      by (simp add: random_py_def counter_get_set)
    also have "\<dots> = Inr (acc,
               if \<not> acc \<and> c' = ?c then container else counter_set container elem c',
               rng\<lparr>pos := i'\<rparr>)"
      using le by (auto simp: random_py_def counter_set_twice)
    finally show ?thesis using u by simp
  qed
qed

lemma reject_interval:
  assumes "0 \<le> (k::int)"
  shows "{r::rat. 0 \<le> r \<and> r < 1 \<and> r < of_int k / of_int (k + 1)}
           = {0 ..< of_int k / of_int (k + 1)}"
proof -
  from assms have "rat_of_int k / of_int (k + 1) < 1"
    by (simp add: divide_less_eq)
  then show ?thesis by auto
qed

text \<open>
  Claim C2. For a positive cap the sampler of the source does what the specification's
  loop does on the counter of the token, the coin of a draw saying reject when the draw
  is below \<open>k / (k + 1)\<close>: same decision, same final counter for the token (no other
  token is touched, and the container is the one given when the occurrence is rejected
  at once), same number of draws. The draws of \<open>[0, 1)\<close> that reject are the interval
  \<open>[0, k / (k + 1))\<close>. When the counter is within the cap, as it always is during the
  pass, this means: below the cap the occurrence is accepted and the counter incremented;
  at the cap it is rejected with nothing changed, or the counter is decremented,
  incremented back and the occurrence accepted.
\<close>

theorem sampler_follows_specification:
  assumes "0 < k"
  shows "reservoir_extend gen container elem k g =
     (case spec_sampler k (\<lambda>i. gen (seed_of g) i < of_int k / of_int (k + 1)) (pos g)
             (counter_get container elem) of
        (acc, c', i') \<Rightarrow>
          Inr (acc,
               if \<not> acc \<and> c' = counter_get container elem then container
               else counter_set container elem c',
               g\<lparr>pos := i'\<rparr>))
   \<and> {r::rat. 0 \<le> r \<and> r < 1 \<and> r < of_int k / of_int (k + 1)}
       = {0 ..< of_int k / of_int (k + 1)}
   \<and> (counter_get container elem \<le> k \<longrightarrow>
       reservoir_extend gen container elem k g =
         (if counter_get container elem < k
            then Inr (True, counter_set container elem (counter_get container elem + 1), g)
          else if gen (seed_of g) (pos g) < of_int k / of_int (k + 1)
            then Inr (False, container, g\<lparr>pos := Suc (pos g)\<rparr>)
          else Inr (True, counter_set container elem k, g\<lparr>pos := Suc (pos g)\<rparr>)))"
proof (intro conjI impI)
  from assms have "k + 1 \<noteq> 0" by simp
  then show "reservoir_extend gen container elem k g =
     (case spec_sampler k (\<lambda>i. gen (seed_of g) i < of_int k / of_int (k + 1)) (pos g)
             (counter_get container elem) of
        (acc, c', i') \<Rightarrow>
          Inr (acc,
               if \<not> acc \<and> c' = counter_get container elem then container
               else counter_set container elem c',
               g\<lparr>pos := i'\<rparr>))"
    by (rule reservoir_extend_spec)
  from assms show "{r::rat. 0 \<le> r \<and> r < 1 \<and> r < of_int k / of_int (k + 1)}
       = {0 ..< of_int k / of_int (k + 1)}"
    by (intro reject_interval) simp
  assume "counter_get container elem \<le> k"
  with assms show "reservoir_extend gen container elem k g =
         (if counter_get container elem < k
            then Inr (True, counter_set container elem (counter_get container elem + 1), g)
          else if gen (seed_of g) (pos g) < of_int k / of_int (k + 1)
            then Inr (False, container, g\<lparr>pos := Suc (pos g)\<rparr>)
          else Inr (True, counter_set container elem k, g\<lparr>pos := Suc (pos g)\<rparr>))"
    by (rule reservoir_extend_within_cap)
qed

theorem sampler_follows_specification_witness:
  "(0::int) < 2
   \<and> counter_get [(''A'', 2)] ''A'' \<le> 2
   \<and> reservoir_extend draws_seed0 [(''A'', 2)] ''A'' 2 (Random 0)
       = (if counter_get [(''A'', 2)] ''A'' < 2
            then Inr (True, counter_set [(''A'', 2)] ''A'' (counter_get [(''A'', 2)] ''A'' + 1),
                      Random 0)
          else if draws_seed0 (seed_of (Random 0)) (pos (Random 0)) < of_int 2 / of_int (2 + 1)
            then Inr (False, [(''A'', 2)], (Random 0)\<lparr>pos := Suc (pos (Random 0))\<rparr>)
          else Inr (True, counter_set [(''A'', 2)] ''A'' 2,
                    (Random 0)\<lparr>pos := Suc (pos (Random 0))\<rparr>))
   \<and> reservoir_extend draws_seed0 [(''A'', 2)] ''A'' 2 (Random 0)
       = Inr (True, [(''A'', 2)], \<lparr>seed_of = 0, pos = 1\<rparr>)"
proof -
  have p: "(0::int) < 2" by simp
  have c: "counter_get [(''A'', 2)] ''A'' \<le> 2" by code_simp
  from sampler_follows_specification [OF p, of draws_seed0 "[(''A'', 2)]" "''A''" "Random 0"] c
  have r: "reservoir_extend draws_seed0 [(''A'', 2)] ''A'' 2 (Random 0)
       = (if counter_get [(''A'', 2)] ''A'' < 2
            then Inr (True, counter_set [(''A'', 2)] ''A'' (counter_get [(''A'', 2)] ''A'' + 1),
                      Random 0)
          else if draws_seed0 (seed_of (Random 0)) (pos (Random 0)) < of_int 2 / of_int (2 + 1)
            then Inr (False, [(''A'', 2)], (Random 0)\<lparr>pos := Suc (pos (Random 0))\<rparr>)
          else Inr (True, counter_set [(''A'', 2)] ''A'' 2,
                    (Random 0)\<lparr>pos := Suc (pos (Random 0))\<rparr>))"
    by blast
  have v: "reservoir_extend draws_seed0 [(''A'', 2)] ''A'' 2 (Random 0)
       = Inr (True, [(''A'', 2)], \<lparr>seed_of = 0, pos = 1\<rparr>)"
    by code_simp
  from p c r v show ?thesis by (intro conjI)
qed

end
